theory Spec2Isabelle
  imports Main "HOL-Library.Word"
begin

unbundle bit_operations_syntax

section \<open>JavaScript values and strings\<close>

text \<open>
  A JavaScript string is a sequence of 16-bit code units, which is what \<open>length\<close>,
  \<open>charCodeAt\<close>, \<open>String.fromCharCode\<close> and a regular expression without the
  \<open>u\<close> flag work on. Payload values are the primitive values; numbers are the
  integral ones (floating point is outside the model), and object or array payloads are
  not modelled. Keys are strings, as the documented signatures say.
\<close>

type_synonym jschar = "16 word"
type_synonym jsstr = "jschar list"

datatype jsval = Undefined | Null | Bool bool | Num int | Str jsstr

datatype error =
    Invalid_key_or_value    \<comment> \<open>\<open>new Error('Invalid key or value')\<close>\<close>
  | Unsupported_format      \<comment> \<open>\<open>new Error('Unsupported format')\<close>\<close>
  | TypeError
  | InvalidCharacterError   \<comment> \<open>\<open>btoa\<close> on a code unit above 255\<close>
  | SyntaxError             \<comment> \<open>\<open>JSON.parse\<close>\<close>
  | RangeError              \<comment> \<open>a string longer than the engine allows\<close>

fun truthy :: "jsval \<Rightarrow> bool" where
  "truthy Undefined = False"
| "truthy Null = False"
| "truthy (Bool b) = b"
| "truthy (Num n) = (n \<noteq> 0)"
| "truthy (Str s) = (s \<noteq> [])"

definition digit_char :: "nat \<Rightarrow> jschar" where
  "digit_char d = of_nat (48 + d)"

definition is_digit :: "jschar \<Rightarrow> bool" where
  "is_digit c = (48 \<le> unat c \<and> unat c \<le> 57)"

definition digit_val :: "jschar \<Rightarrow> nat" where
  "digit_val c = unat c - 48"

text \<open>The decimal numeral of a natural number, as a template literal prints a length.\<close>

fun decimal :: "nat \<Rightarrow> jsstr" where
  "decimal n = (if n < 10 then [digit_char n] else decimal (n div 10) @ [digit_char (n mod 10)])"

declare decimal.simps [simp del]

text \<open>\<open>parseInt\<close> on a string of decimal digits.\<close>

definition parseInt :: "jsstr \<Rightarrow> nat" where
  "parseInt ds = foldl (\<lambda>acc c. acc * 10 + digit_val c) 0 ds"

text \<open>\<open>String(v)\<close> for a primitive value, which \<open>atob\<close> applies to its argument.\<close>

fun to_string :: "jsval \<Rightarrow> jsstr" where
  "to_string Undefined = [117, 110, 100, 101, 102, 105, 110, 101, 100]"
| "to_string Null = [110, 117, 108, 108]"
| "to_string (Bool b) = (if b then [116, 114, 117, 101] else [102, 97, 108, 115, 101])"
| "to_string (Num n) = (if n < 0 then 45 # decimal (nat (- n)) else decimal (nat n))"
| "to_string (Str s) = s"

section \<open>Base64: the platform's \<open>btoa\<close> and \<open>atob\<close>\<close>

text \<open>
  \<open>btoa\<close> and \<open>atob\<close> belong to the browser, not to the repository. They are
  modelled after the HTML standard: \<open>btoa\<close> throws on a code unit above 255 and
  otherwise writes the Base64 text with padding; \<open>atob\<close> is the forgiving decoder,
  which strips ASCII whitespace, removes one or two trailing \<open>=\<close> when the length is
  a multiple of four, fails on a length of 1 modulo 4 or on a character outside the
  alphabet, and drops the spare bits of a final partial group.
\<close>

definition b64_char :: "nat \<Rightarrow> jschar" where
  "b64_char i =
     (if i < 26 then of_nat (65 + i)
      else if i < 52 then of_nat (97 + (i - 26))
      else if i < 62 then of_nat (48 + (i - 52))
      else if i = 62 then 43 else 47)"

definition b64_index :: "jschar \<Rightarrow> nat option" where
  "b64_index c =
     (let n = unat c in
      if 65 \<le> n \<and> n \<le> 90 then Some (n - 65)
      else if 97 \<le> n \<and> n \<le> 122 then Some (n - 97 + 26)
      else if 48 \<le> n \<and> n \<le> 57 then Some (n - 48 + 52)
      else if n = 43 then Some 62
      else if n = 47 then Some 63
      else None)"

fun sextets :: "nat list \<Rightarrow> nat list" where
  "sextets (a # b # c # rest) =
     [a div 4, (a mod 4) * 16 + b div 16, (b mod 16) * 4 + c div 64, c mod 64] @ sextets rest"
| "sextets [a, b] = [a div 4, (a mod 4) * 16 + b div 16, (b mod 16) * 4]"
| "sextets [a] = [a div 4, (a mod 4) * 16]"
| "sextets [] = []"

definition padding :: "nat \<Rightarrow> jsstr" where
  "padding n = replicate ((3 - n mod 3) mod 3) 61"

definition btoa :: "jsstr \<Rightarrow> error + jsstr" where
  "btoa s =
     (if \<exists>c \<in> set s. 255 < unat c then Inl InvalidCharacterError
      else Inr (map b64_char (sextets (map unat s)) @ padding (length s)))"

definition is_ascii_whitespace :: "jschar \<Rightarrow> bool" where
  "is_ascii_whitespace c = (c = 9 \<or> c = 10 \<or> c = 12 \<or> c = 13 \<or> c = 32)"

definition strip_padding :: "jsstr \<Rightarrow> jsstr" where
  "strip_padding s =
     (if length s mod 4 = 0 then
        (case rev s of
           c1 # c2 # r \<Rightarrow> if c1 = 61 then (if c2 = 61 then rev r else rev (c2 # r)) else s
         | [c1] \<Rightarrow> if c1 = 61 then [] else s
         | [] \<Rightarrow> s)
      else s)"

fun octets :: "nat list \<Rightarrow> nat list" where
  "octets (p # q # r # t # rest) =
     [p * 4 + q div 16, (q mod 16) * 16 + r div 4, (r mod 4) * 64 + t] @ octets rest"
| "octets [p, q, r] = [p * 4 + q div 16, (q mod 16) * 16 + r div 4]"
| "octets [p, q] = [p * 4 + q div 16]"
| "octets [p] = []"
| "octets [] = []"

definition atob :: "jsstr \<Rightarrow> jsstr option" where
  "atob data =
     (let d = strip_padding (filter (\<lambda>c. \<not> is_ascii_whitespace c) data) in
      if length d mod 4 = 1 then None
      else if \<exists>c \<in> set d. b64_index c = None then None
      else Some (map of_nat (octets (map (\<lambda>c. the (b64_index c)) d))))"

section \<open>The Crypto module\<close>

text \<open>\<open>'defaultKey'\<close>, the default of the \<open>key\<close> parameter.\<close>

definition defaultKey :: jsstr where
  "defaultKey = [100, 101, 102, 97, 117, 108, 116, 75, 101, 121]"

text \<open>
  The loop of \<open>encrypt\<close> and \<open>decrypt\<close>: code unit \<open>i\<close> is XORed with code unit
  \<open>i % key.length\<close> of the key.
\<close>

fun xor_from :: "nat \<Rightarrow> jsstr \<Rightarrow> jsstr" where
  "xor_from i [] = []"
| "xor_from i (c # cs) = (c XOR defaultKey ! (i mod length defaultKey)) # xor_from (Suc i) cs"

text \<open>
  \<open>Crypto.encrypt(text)\<close>. Reading \<open>text.length\<close> throws on \<open>null\<close> and
  \<open>undefined\<close>; a number or a boolean has no \<open>length\<close>, the loop does not run and
  the result is \<open>btoa('')\<close>.
\<close>

fun encrypt :: "jsval \<Rightarrow> error + jsstr" where
  "encrypt Undefined = Inl TypeError"
| "encrypt Null = Inl TypeError"
| "encrypt (Bool b) = btoa []"
| "encrypt (Num n) = btoa []"
| "encrypt (Str text) = btoa (xor_from 0 text)"

text \<open>\<open>Crypto.decrypt(encrypted)\<close>: a failure of \<open>atob\<close> is caught and gives \<open>null\<close>.\<close>

definition decrypt :: "jsval \<Rightarrow> jsval" where
  "decrypt encrypted =
     (case atob (to_string encrypted) of
        None \<Rightarrow> Null
      | Some text \<Rightarrow> Str (xor_from 0 text))"

section \<open>The Compression module\<close>

text \<open>The dot of a regular expression matches every code unit but the line terminators.\<close>

definition is_line_terminator :: "jschar \<Rightarrow> bool" where
  "is_line_terminator c = (c = 10 \<or> c = 13 \<or> c = 8232 \<or> c = 8233)"

text \<open>
  \<open>text.replace(/(.)\1+/g, ...)\<close>: scanning from the left, a code unit that is not a line
  terminator and is followed by at least one copy of itself starts a match, which takes
  the whole run; a run longer than 3 is replaced by the code unit and the length.
\<close>

function compress :: "jsstr \<Rightarrow> jsstr" where
  "compress [] = []"
| "compress (c # cs) =
     (let run = takeWhile (\<lambda>x. x = c) cs in
      if is_line_terminator c \<or> run = [] then c # compress cs
      else (if 3 < Suc (length run) then c # decimal (Suc (length run)) else c # run)
           @ compress (dropWhile (\<lambda>x. x = c) cs))"
  by pat_completeness auto
termination
  by (relation "measure length") (auto simp: length_dropWhile_le less_Suc_eq_le)

text \<open>
  \<open>compressed.replace(/(.)\d+/g, ...)\<close>: a code unit that is not a line terminator and
  is followed by at least one digit starts a match, which takes all the digits; it is
  replaced by the code unit repeated \<open>parseInt\<close> of the digits times. An engine has a
  largest length of a string, which differs between engines and is the parameter
  \<open>maxlen\<close>: \<open>repeat\<close> throws a \<open>RangeError\<close> on a count above it, and so does
  \<open>replace\<close> when the whole result would be longer.
\<close>

function decompress :: "nat \<Rightarrow> jsstr \<Rightarrow> error + jsstr" where
  "decompress maxlen [] = Inr []"
| "decompress maxlen (c # cs) =
     (let ds = takeWhile is_digit cs in
      if is_line_terminator c \<or> ds = [] then
        (case decompress maxlen cs of
           Inl err \<Rightarrow> Inl err
         | Inr r \<Rightarrow> if maxlen < Suc (length r) then Inl RangeError else Inr (c # r))
      else if maxlen < parseInt ds then Inl RangeError
      else
        (case decompress maxlen (dropWhile is_digit cs) of
           Inl err \<Rightarrow> Inl err
         | Inr r \<Rightarrow>
             if maxlen < parseInt ds + length r then Inl RangeError
             else Inr (replicate (parseInt ds) c @ r)))"
  by pat_completeness auto
termination
  by (relation "measure (\<lambda>(maxlen, t). length t)")
     (auto simp: length_dropWhile_le less_Suc_eq_le)

section \<open>The store\<close>

text \<open>
  One stored record. \<open>expiry\<close> is absent unless the put had a positive \<open>ttl\<close>.
\<close>

record entry =
  e_value :: jsval
  e_timestamp :: int
  e_encrypted :: bool
  e_compressed :: bool
  e_expiry :: "int option"

text \<open>
  The options object of \<open>put\<close>. The code reads \<open>options.ttl\<close>,
  \<open>options.encrypted\<close> and \<open>options.compress\<close>; an absent, \<open>null\<close> or
  \<open>undefined\<close> \<open>ttl\<close> is \<open>None\<close>.
\<close>

record options =
  opt_ttl :: "int option"
  opt_encrypted :: bool
  opt_compress :: bool

definition no_options :: options where
  "no_options = \<lparr>opt_ttl = None, opt_encrypted = False, opt_compress = False\<rparr>"

datatype wal_record =
    WalPut int jsstr jsval options   \<comment> \<open>timestamp, key, stored value, options\<close>
  | WalDelete int jsstr              \<comment> \<open>timestamp, key\<close>

text \<open>
  The counters of \<open>stats\<close>. The rolling windows of latencies and timestamps hold
  floating-point measurements and are left out.
\<close>

record stats =
  totalOps :: nat
  putOps :: nat
  getOps :: nat
  deleteOps :: nat
  cacheHits :: nat
  cacheMisses :: nat

text \<open>The blob that \<open>persist\<close> writes under \<open>'kvstore-pro'\<close>.\<close>

record snapshot =
  snap_store :: "(jsstr \<times> entry) list"
  snap_encryptedKeys :: "jsstr list"
  snap_wal :: "wal_record list"

text \<open>
  The fields of \<open>TinyKVStorePro\<close>. A \<open>Map\<close> is an association list in insertion
  order, a \<open>Set\<close> a list in insertion order. \<open>timers\<close> holds the pending
  \<open>setTimeout\<close> callbacks, each with the time it is due and the key it deletes;
  \<open>persisted\<close> is the content of local storage, which is taken to accept every
  write. \<open>queryHistory\<close> and \<open>monitoring\<close> play no part in the operations below
  and are left out.
\<close>

record kvstore =
  store :: "(jsstr \<times> entry) list"
  wal :: "wal_record list"
  cache :: "(jsstr \<times> entry) list"
  cacheSize :: nat
  encryptedKeys :: "jsstr list"
  stats :: stats
  timers :: "(int \<times> jsstr) list"
  persisted :: "snapshot option"

subsection \<open>Map and Set operations\<close>

fun map_set :: "'k \<Rightarrow> 'v \<Rightarrow> ('k \<times> 'v) list \<Rightarrow> ('k \<times> 'v) list" where
  "map_set k v [] = [(k, v)]"
| "map_set k v (p # ps) = (if fst p = k then (k, v) # ps else p # map_set k v ps)"

definition map_has :: "'k \<Rightarrow> ('k \<times> 'v) list \<Rightarrow> bool" where
  "map_has k m = (k \<in> set (map fst m))"

definition map_delete :: "'k \<Rightarrow> ('k \<times> 'v) list \<Rightarrow> ('k \<times> 'v) list" where
  "map_delete k m = filter (\<lambda>p. fst p \<noteq> k) m"

definition set_add :: "'k \<Rightarrow> 'k list \<Rightarrow> 'k list" where
  "set_add k ks = (if k \<in> set ks then ks else ks @ [k])"

subsection \<open>Statistics and persistence\<close>

datatype stat_op = PUT | GET | DELETE

definition recordStats :: "stat_op \<Rightarrow> kvstore \<Rightarrow> kvstore" where
  "recordStats operation s =
     (let st = stats s;
          st1 = st\<lparr>totalOps := totalOps st + 1\<rparr>;
          st2 = (case operation of
                   PUT \<Rightarrow> st1\<lparr>putOps := putOps st1 + 1\<rparr>
                 | GET \<Rightarrow> st1\<lparr>getOps := getOps st1 + 1\<rparr>
                 | DELETE \<Rightarrow> st1\<lparr>deleteOps := deleteOps st1 + 1\<rparr>)
      in s\<lparr>stats := st2\<rparr>)"

definition resetStats :: "kvstore \<Rightarrow> kvstore" where
  "resetStats s =
     s\<lparr>stats := \<lparr>totalOps = 0, putOps = 0, getOps = 0, deleteOps = 0,
                   cacheHits = 0, cacheMisses = 0\<rparr>\<rparr>"

text \<open>\<open>persist\<close>: the blob holds the store, the encrypted keys and \<open>wal.slice(-1000)\<close>.\<close>

definition persist :: "kvstore \<Rightarrow> kvstore" where
  "persist s =
     s\<lparr>persisted := Some \<lparr>snap_store = store s,
                           snap_encryptedKeys = encryptedKeys s,
                           snap_wal = drop (length (wal s) - 1000) (wal s)\<rparr>\<rparr>"

subsection \<open>Cache management\<close>

text \<open>
  \<open>updateCache\<close>: at or over capacity the first key in insertion order is deleted
  (on an empty cache \<open>firstKey\<close> is \<open>undefined\<close> and nothing is deleted), then the
  entry is set.
\<close>

definition updateCache :: "jsstr \<Rightarrow> entry \<Rightarrow> kvstore \<Rightarrow> kvstore" where
  "updateCache key e s =
     (let c = (if cacheSize s \<le> length (cache s) then
                 (case cache s of [] \<Rightarrow> [] | p # ps \<Rightarrow> map_delete (fst p) (cache s))
               else cache s)
      in s\<lparr>cache := map_set key e c\<rparr>)"

text \<open>
  \<open>processValue\<close>: decompress, then decrypt. \<open>replace\<close> is not a function of a
  value that is not a string. \<open>maxlen\<close> is the engine's largest length of a string.
\<close>

definition processValue :: "nat \<Rightarrow> jsval \<Rightarrow> entry \<Rightarrow> error + jsval" where
  "processValue maxlen v e =
     (case (if e_compressed e then
              (case v of
                 Str t \<Rightarrow>
                   (case decompress maxlen t of Inl err \<Rightarrow> Inl err | Inr r \<Rightarrow> Inr (Str r))
               | _ \<Rightarrow> Inl TypeError)
            else Inr v) of
        Inl err \<Rightarrow> Inl err
      | Inr processed \<Rightarrow> Inr (if e_encrypted e then decrypt processed else processed))"

subsection \<open>Core operations\<close>

text \<open>
  The delay of \<open>setTimeout\<close> is converted by the platform to a signed 32-bit integer,
  and a negative delay counts as 0.
\<close>

definition setTimeout_delay :: "int \<Rightarrow> int" where
  "setTimeout_delay d =
     (let w = d mod 2 ^ 32; sd = (if 2 ^ 31 \<le> w then w - 2 ^ 32 else w) in max 0 sd)"

text \<open>\<open>entry.expiry && entry.expiry < Date.now()\<close>\<close>

definition expired :: "entry \<Rightarrow> int \<Rightarrow> bool" where
  "expired e now = (case e_expiry e of None \<Rightarrow> False | Some x \<Rightarrow> x \<noteq> 0 \<and> x < now)"

text \<open>
  \<open>delete(key)\<close>, with \<open>now\<close> the value of \<open>Date.now()\<close>. The result is the
  \<open>success\<close> field.
\<close>

definition delete :: "jsstr \<Rightarrow> int \<Rightarrow> kvstore \<Rightarrow> bool \<times> kvstore" where
  "delete key now s =
     (let s1 = s\<lparr>wal := wal s @ [WalDelete now key]\<rparr>;
          existed = map_has key (store s1);
          s2 = s1\<lparr>store := map_delete key (store s1)\<rparr>;
          s3 = s2\<lparr>cache := map_delete key (cache s2)\<rparr>;
          s4 = s3\<lparr>encryptedKeys := removeAll key (encryptedKeys s3)\<rparr>;
          s5 = persist s4;
          s6 = recordStats DELETE s5
      in (existed, s6))"

text \<open>
  \<open>put(key, value, options)\<close>. A throw leaves the state as it is at that point: both
  throws come before the first assignment to a field. The result is the \<open>success\<close>
  field.
\<close>

definition put :: "jsstr \<Rightarrow> jsval \<Rightarrow> options \<Rightarrow> int \<Rightarrow> kvstore \<Rightarrow> (error + bool) \<times> kvstore" where
  "put key v opts now s =
     (if key = [] \<or> v = Undefined then (Inl Invalid_key_or_value, s)
      else
        (case (if opt_encrypted opts then
                 (case encrypt v of
                    Inl err \<Rightarrow> Inl err
                  | Inr t \<Rightarrow> Inr (Str t, s\<lparr>encryptedKeys := set_add key (encryptedKeys s)\<rparr>))
               else Inr (v, s)) of
           Inl err \<Rightarrow> (Inl err, s)
         | Inr (sv, s1) \<Rightarrow>
             (let storedValue =
                    (case sv of
                       Str t \<Rightarrow> if opt_compress opts then Str (compress t) else sv
                     | _ \<Rightarrow> sv);
                  s2 = s1\<lparr>wal := wal s1 @ [WalPut now key storedValue opts]\<rparr>;
                  e = \<lparr>e_value = storedValue, e_timestamp = now,
                       e_encrypted = opt_encrypted opts, e_compressed = opt_compress opts,
                       e_expiry = None\<rparr>;
                  has_ttl = (case opt_ttl opts of None \<Rightarrow> False | Some t \<Rightarrow> t \<noteq> 0 \<and> 0 < t);
                  e' = (if has_ttl then e\<lparr>e_expiry := Some (now + the (opt_ttl opts) * 1000)\<rparr>
                        else e);
                  s3 = (if has_ttl then
                          s2\<lparr>timers := timers s2 @
                               [(now + setTimeout_delay (the (opt_ttl opts) * 1000), key)]\<rparr>
                        else s2);
                  s4 = s3\<lparr>store := map_set key e' (store s3)\<rparr>;
                  s5 = updateCache key e' s4;
                  s6 = persist s5;
                  s7 = recordStats PUT s6
              in (Inr True, s7))))"

text \<open>
  \<open>get(key)\<close>, on an engine whose largest length of a string is \<open>maxlen\<close>. The result
  is the returned value, or the error thrown.
\<close>

definition get :: "nat \<Rightarrow> jsstr \<Rightarrow> int \<Rightarrow> kvstore \<Rightarrow> (error + jsval) \<times> kvstore" where
  "get maxlen key now s =
     (let s1 = s\<lparr>stats := (stats s)\<lparr>getOps := getOps (stats s) + 1\<rparr>\<rparr> in
      case map_of (cache s1) key of
        Some e \<Rightarrow>
          (let s2 = s1\<lparr>stats := (stats s1)\<lparr>cacheHits := cacheHits (stats s1) + 1\<rparr>\<rparr> in
           if expired e now then (Inr Null, snd (delete key now s2))
           else (processValue maxlen (e_value e) e, recordStats GET s2))
      | None \<Rightarrow>
          (let s2 = s1\<lparr>stats := (stats s1)\<lparr>cacheMisses := cacheMisses (stats s1) + 1\<rparr>\<rparr> in
           case map_of (store s2) key of
             None \<Rightarrow> (Inr Null, recordStats GET s2)
           | Some e \<Rightarrow>
               if expired e now then (Inr Null, snd (delete key now s2))
               else (processValue maxlen (e_value e) e,
                     recordStats GET (updateCache key e s2))))"

text \<open>\<open>exists(key)\<close>\<close>

definition exists :: "jsstr \<Rightarrow> int \<Rightarrow> kvstore \<Rightarrow> bool \<times> kvstore" where
  "exists key now s =
     (case map_of (store s) key of
        None \<Rightarrow> (False, s)
      | Some e \<Rightarrow> if expired e now then (False, snd (delete key now s)) else (True, s))"

text \<open>\<open>clear()\<close>. Pending timers stay scheduled.\<close>

definition clear :: "kvstore \<Rightarrow> kvstore" where
  "clear s =
     resetStats (persist (s\<lparr>store := [], cache := [], encryptedKeys := [], wal := []\<rparr>))"

text \<open>
  The event loop at time \<open>now\<close>: every pending timer that is due runs its callback
  \<open>this.delete(key)\<close>, in the order of the due times, and is gone afterwards.
\<close>

definition run_timers :: "int \<Rightarrow> kvstore \<Rightarrow> kvstore" where
  "run_timers now s =
     (let due = sort_key fst (filter (\<lambda>t. fst t \<le> now) (timers s));
          s1 = s\<lparr>timers := filter (\<lambda>t. \<not> fst t \<le> now) (timers s)\<rparr>
      in fold (\<lambda>t st. snd (delete (snd t) now st)) due s1)"

text \<open>The state the constructor makes when local storage holds no blob.\<close>

definition empty_store :: kvstore where
  "empty_store =
     \<lparr>store = [], wal = [], cache = [], cacheSize = 100, encryptedKeys = [],
      stats = \<lparr>totalOps = 0, putOps = 0, getOps = 0, deleteOps = 0,
               cacheHits = 0, cacheMisses = 0\<rparr>,
      timers = [], persisted = None\<rparr>"

text \<open>A sequence of calls of \<open>put\<close>, each with its own arguments and time.\<close>

fun put_all :: "(jsstr \<times> jsval \<times> options \<times> int) list \<Rightarrow> kvstore \<Rightarrow> kvstore" where
  "put_all [] s = s"
| "put_all ((key, v, opts, now) # rest) s = put_all rest (snd (put key v opts now s))"

subsection \<open>Batch operations\<close>

text \<open>
  One operation of a batch. \<open>b_op\<close> is the case that \<open>op.op.toUpperCase()\<close> selects in
  the \<open>switch\<close>; \<open>b_value\<close> is \<open>Undefined\<close> and \<open>b_ttl\<close> is \<open>None\<close> when the
  field is absent.
\<close>

datatype op_tag = OpPUT | OpGET | OpDELETE | OpEXISTS | OpOther

record batch_op =
  b_op :: op_tag
  b_key :: jsstr
  b_value :: jsval
  b_ttl :: "int option"

text \<open>The \<open>result\<close> object of one operation.\<close>

datatype op_result =
    PutResult bool       \<comment> \<open>\<open>{ success, latency }\<close> of \<open>put\<close>\<close>
  | GetResult jsval      \<comment> \<open>\<open>{ success: true, value }\<close>\<close>
  | DeleteResult bool    \<comment> \<open>\<open>{ success, latency }\<close> of \<open>delete\<close>\<close>
  | ExistsResult bool    \<comment> \<open>\<open>{ success: true, exists }\<close>\<close>
  | UnknownOperation     \<comment> \<open>\<open>{ success: false, error: 'Unknown operation' }\<close>\<close>

record batch_result =
  br_success :: bool
  br_error :: "error option"
  br_results :: "(batch_op \<times> op_result) list"
  br_opsPerformed :: "nat option"

text \<open>The body of the \<open>switch\<close>: the result object, or the error thrown.\<close>

definition batch_step ::
  "nat \<Rightarrow> batch_op \<Rightarrow> int \<Rightarrow> kvstore \<Rightarrow> (error + op_result) \<times> kvstore" where
  "batch_step maxlen op now s =
     (case b_op op of
        OpPUT \<Rightarrow>
          (case put (b_key op) (b_value op)
                  \<lparr>opt_ttl = b_ttl op, opt_encrypted = False, opt_compress = False\<rparr> now s of
             (Inl err, s') \<Rightarrow> (Inl err, s')
           | (Inr r, s') \<Rightarrow> (Inr (PutResult r), s'))
      | OpGET \<Rightarrow>
          (case get maxlen (b_key op) now s of
             (Inl err, s') \<Rightarrow> (Inl err, s')
           | (Inr v, s') \<Rightarrow> (Inr (GetResult v), s'))
      | OpDELETE \<Rightarrow> (case delete (b_key op) now s of (r, s') \<Rightarrow> (Inr (DeleteResult r), s'))
      | OpEXISTS \<Rightarrow> (case exists (b_key op) now s of (r, s') \<Rightarrow> (Inr (ExistsResult r), s'))
      | OpOther \<Rightarrow> (Inr UnknownOperation, s))"

text \<open>
  The \<open>for\<close> loop inside the \<open>try\<close>, with the results pushed so far; every operation
  comes with the time at which it runs.
\<close>

fun batch_loop ::
  "nat \<Rightarrow> (batch_op \<times> int) list \<Rightarrow> (batch_op \<times> op_result) list \<Rightarrow> kvstore
     \<Rightarrow> (error option \<times> (batch_op \<times> op_result) list) \<times> kvstore" where
  "batch_loop maxlen [] results s = ((None, results), s)"
| "batch_loop maxlen ((op, now) # rest) results s =
     (case batch_step maxlen op now s of
        (Inl err, s') \<Rightarrow> ((Some err, results), s')
      | (Inr r, s') \<Rightarrow> batch_loop maxlen rest (results @ [(op, r)]) s')"

definition batch :: "nat \<Rightarrow> (batch_op \<times> int) list \<Rightarrow> kvstore \<Rightarrow> batch_result \<times> kvstore" where
  "batch maxlen operations s =
     (case batch_loop maxlen operations [] s of
        ((None, results), s') \<Rightarrow>
          (\<lparr>br_success = True, br_error = None, br_results = results,
            br_opsPerformed = Some (length operations)\<rparr>, s')
      | ((Some err, results), s') \<Rightarrow>
          (\<lparr>br_success = False, br_error = Some err, br_results = results,
            br_opsPerformed = None\<rparr>, s'))"

subsection \<open>Import\<close>

text \<open>
  What the loop of \<open>import\<close> reads of one parsed element: \<open>entry.key\<close>,
  \<open>entry.value\<close> and \<open>entry.ttl\<close>. Reading a property of \<open>null\<close> throws; any other
  element that is not an object has none of the three. The key of a record is a string or
  absent, its value a primitive value, its \<open>ttl\<close> a number or absent, which is what
  \<open>export\<close> writes.
\<close>

record import_record =
  r_key :: "jsstr option"
  r_value :: jsval
  r_ttl :: "int option"

datatype import_elem = ElemNull | ElemObj import_record

text \<open>What \<open>JSON.parse\<close> returns: an array, or a value without \<open>forEach\<close>.\<close>

datatype parsed = NotArray | Entries "import_elem list"

text \<open>\<open>s.split(sep)\<close> for a separator of one code unit.\<close>

fun split :: "jschar \<Rightarrow> jsstr \<Rightarrow> jsstr list" where
  "split sep [] = [[]]"
| "split sep (c # cs) =
     (if c = sep then [] # split sep cs
      else (case split sep cs of [] \<Rightarrow> [[c]] | p # ps \<Rightarrow> (c # p) # ps))"

text \<open>White space and line terminators, which \<open>trim\<close> removes at both ends.\<close>

definition is_js_whitespace :: "jschar \<Rightarrow> bool" where
  "is_js_whitespace c =
     (let n = unat c in
      (9 \<le> n \<and> n \<le> 13) \<or> n = 32 \<or> n = 160 \<or> n = 5760 \<or> (8192 \<le> n \<and> n \<le> 8202) \<or>
      n = 8232 \<or> n = 8233 \<or> n = 8239 \<or> n = 8287 \<or> n = 12288 \<or> n = 65279)"

definition trim :: "jsstr \<Rightarrow> jsstr" where
  "trim t = rev (dropWhile is_js_whitespace (rev (dropWhile is_js_whitespace t)))"

text \<open>\<open>t.replace(/^"|"$/g, '')\<close>\<close>

definition strip_quotes :: "jsstr \<Rightarrow> jsstr" where
  "strip_quotes t =
     (let t1 = (case t of [] \<Rightarrow> [] | c # cs \<Rightarrow> if c = 34 then cs else t) in
      case rev t1 of [] \<Rightarrow> [] | c # cs \<Rightarrow> if c = 34 then rev cs else t1)"

text \<open>\<open>const [key, value] = parts\<close>, as a record without \<open>ttl\<close>.\<close>

definition key_value :: "jsstr list \<Rightarrow> import_elem" where
  "key_value parts =
     ElemObj \<lparr>r_key = (case parts of [] \<Rightarrow> None | k # _ \<Rightarrow> Some k),
              r_value = (case parts of _ # v # _ \<Rightarrow> Str v | _ \<Rightarrow> Undefined),
              r_ttl = None\<rparr>"

definition parse_csv :: "jsstr \<Rightarrow> import_elem list" where
  "parse_csv data =
     map (\<lambda>line. key_value (map (\<lambda>t. strip_quotes (trim t)) (split 44 line)))
       (drop 1 (split 10 data))"

definition parse_txt :: "jsstr \<Rightarrow> import_elem list" where
  "parse_txt data = map (\<lambda>line. key_value (map trim (split 61 line))) (split 10 data)"

text \<open>
  The \<open>forEach\<close> loop: a record with a truthy key and a truthy value is put, with
  \<open>{ ttl: entry.ttl || null }\<close>, and counted.
\<close>

fun import_loop :: "import_elem list \<Rightarrow> nat \<Rightarrow> int \<Rightarrow> kvstore \<Rightarrow> (error + nat) \<times> kvstore" where
  "import_loop [] imported now s = (Inr imported, s)"
| "import_loop (ElemNull # rest) imported now s = (Inl TypeError, s)"
| "import_loop (ElemObj r # rest) imported now s =
     (case r_key r of
        None \<Rightarrow> import_loop rest imported now s
      | Some k \<Rightarrow>
          if k \<noteq> [] \<and> truthy (r_value r) then
            (case put k (r_value r)
                    \<lparr>opt_ttl = (case r_ttl r of None \<Rightarrow> None
                                | Some t \<Rightarrow> if t = 0 then None else Some t),
                     opt_encrypted = False, opt_compress = False\<rparr> now s of
               (Inl err, s') \<Rightarrow> (Inl err, s')
             | (Inr _, s') \<Rightarrow> import_loop rest (imported + 1) now s')
          else import_loop rest imported now s)"

datatype import_result =
    Imported nat nat     \<comment> \<open>\<open>{ success: true, imported, total }\<close>\<close>
  | ImportFailed error   \<comment> \<open>\<open>{ success: false, error }\<close>\<close>

text \<open>
  The \<open>switch\<close> on the format, which are the strings \<open>'json'\<close>, \<open>'csv'\<close> and
  \<open>'txt'\<close>. \<open>JSON_parse\<close> stands for the platform's \<open>JSON.parse\<close>, which returns
  the parsed value or throws a \<open>SyntaxError\<close>.
\<close>

definition parse_entries :: "(jsstr \<Rightarrow> error + parsed) \<Rightarrow> jsstr \<Rightarrow> jsstr \<Rightarrow> error + parsed" where
  "parse_entries JSON_parse data format =
     (if format = [106, 115, 111, 110] then JSON_parse data
      else if format = [99, 115, 118] then Inr (Entries (parse_csv data))
      else if format = [116, 120, 116] then Inr (Entries (parse_txt data))
      else Inl Unsupported_format)"

text \<open>
  \<open>import(data, format)\<close>: whatever is thrown inside the \<open>try\<close> is caught and
  reported; \<open>forEach\<close> is not a function of a value that is not an array.
\<close>

definition import_data ::
  "(jsstr \<Rightarrow> error + parsed) \<Rightarrow> jsstr \<Rightarrow> jsstr \<Rightarrow> int \<Rightarrow> kvstore \<Rightarrow> import_result \<times> kvstore" where
  "import_data JSON_parse data format now s =
     (case parse_entries JSON_parse data format of
        Inl err \<Rightarrow> (ImportFailed err, s)
      | Inr NotArray \<Rightarrow> (ImportFailed TypeError, s)
      | Inr (Entries entries) \<Rightarrow>
          (case import_loop entries 0 now s of
             (Inl err, s') \<Rightarrow> (ImportFailed err, s')
           | (Inr imported, s') \<Rightarrow> (Imported imported (length entries), s')))"

section \<open>Predicates used in the statements\<close>

text \<open>
  A call of \<open>put\<close> that does not throw: it passes the validation, and the value can be
  encrypted if the options ask for it.
\<close>

definition valid_put :: "jsstr \<times> jsval \<times> options \<times> int \<Rightarrow> bool" where
  "valid_put r =
     (case r of (key, v, opts, now) \<Rightarrow>
        key \<noteq> [] \<and> v \<noteq> Undefined \<and> (opt_encrypted opts \<longrightarrow> \<not> isl (encrypt v)))"

text \<open>The cache after the first step of \<open>updateCache\<close>, for capacity \<open>n\<close>.\<close>

definition evicted :: "nat \<Rightarrow> ('k \<times> 'v) list \<Rightarrow> ('k \<times> 'v) list" where
  "evicted n c =
     (if n \<le> length c then (case c of [] \<Rightarrow> [] | p # ps \<Rightarrow> map_delete (fst p) c) else c)"

text \<open>A parsed record that \<open>import\<close> applies: its key and its value are truthy.\<close>

fun importable :: "import_elem \<Rightarrow> bool" where
  "importable ElemNull = False"
| "importable (ElemObj r) =
     (case r_key r of None \<Rightarrow> False | Some k \<Rightarrow> k \<noteq> [] \<and> truthy (r_value r))"

text \<open>The call of \<open>put\<close> that \<open>import\<close> makes for such a record.\<close>

fun import_put :: "int \<Rightarrow> import_elem \<Rightarrow> jsstr \<times> jsval \<times> options \<times> int" where
  "import_put now (ElemObj r) =
     (the (r_key r), r_value r,
      \<lparr>opt_ttl = (case r_ttl r of None \<Rightarrow> None | Some t \<Rightarrow> if t = 0 then None else Some t),
       opt_encrypted = False, opt_compress = False\<rparr>, now)"
| "import_put now ElemNull = ([], Undefined, no_options, now)"

text \<open>The options \<open>{ ttl: t }\<close>, and the entry that a put with them stores.\<close>

definition ttl_options :: "int \<Rightarrow> options" where
  "ttl_options t = \<lparr>opt_ttl = Some t, opt_encrypted = False, opt_compress = False\<rparr>"

definition ttl_entry :: "jsval \<Rightarrow> int \<Rightarrow> int \<Rightarrow> entry" where
  "ttl_entry v t0 t =
     \<lparr>e_value = v, e_timestamp = t0, e_encrypted = False, e_compressed = False,
      e_expiry = Some (t0 + t * 1000)\<rparr>"

text \<open>
  A text on which decompression reverses compression: no digit follows a code unit other
  than a line terminator (a digit may stand first).
\<close>

fun unambiguous :: "jsstr \<Rightarrow> bool" where
  "unambiguous (p # c # cs) = ((is_digit c \<longrightarrow> is_line_terminator p) \<and> unambiguous (c # cs))"
| "unambiguous _ = True"

text \<open>
  The text that \<open>put\<close> hands to \<open>compress\<close>: the value, or its encryption when
  \<open>encrypted\<close> is set.
\<close>

definition payload :: "options \<Rightarrow> jsstr \<Rightarrow> jsstr" where
  "payload opts text =
     (if opt_encrypted opts then (case encrypt (Str text) of Inl _ \<Rightarrow> [] | Inr b \<Rightarrow> b) else text)"

text \<open>
  The texts for which the codec is reversible under the given options, on an engine whose
  largest length of a string is \<open>maxlen\<close>: if encrypted, no code unit is above 255; if
  compressed, the text handed to \<open>compress\<close> is unambiguous and, as every string of
  that engine, not longer than \<open>maxlen\<close>.
\<close>

definition codec_safe :: "nat \<Rightarrow> options \<Rightarrow> jsstr \<Rightarrow> bool" where
  "codec_safe maxlen opts text =
     ((opt_encrypted opts \<longrightarrow> (\<forall>c \<in> set text. unat c \<le> 255)) \<and>
      (opt_compress opts \<longrightarrow>
         unambiguous (payload opts text) \<and> length (payload opts text) \<le> maxlen))"

text \<open>The state of a batch after its first \<open>i\<close> operations, and its results.\<close>

abbreviation batch_state :: "nat \<Rightarrow> (batch_op \<times> int) list \<Rightarrow> kvstore \<Rightarrow> nat \<Rightarrow> kvstore" where
  "batch_state maxlen ops s i \<equiv> snd (batch maxlen (take i ops) s)"

abbreviation batch_results ::
  "nat \<Rightarrow> (batch_op \<times> int) list \<Rightarrow> kvstore \<Rightarrow> (batch_op \<times> op_result) list" where
  "batch_results maxlen ops s \<equiv> br_results (fst (batch maxlen ops s))"

text \<open>The options \<open>{ ttl: op.ttl }\<close> that \<open>batch\<close> passes to \<open>put\<close>.\<close>

abbreviation batch_options :: "batch_op \<Rightarrow> options" where
  "batch_options op \<equiv> \<lparr>opt_ttl = b_ttl op, opt_encrypted = False, opt_compress = False\<rparr>"

section \<open>Maps and the cache\<close>

lemma map_of_map_set: "map_of (map_set k v m) k' = (if k' = k then Some v else map_of m k')"
  by (induction m) auto

lemma map_of_map_delete: "map_of (map_delete k m) k' = (if k' = k then None else map_of m k')"
  by (induction m) (auto simp: map_delete_def)

lemma map_has_map_of: "map_has k m = (map_of m k \<noteq> None)"
  by (induction m) (auto simp: map_has_def)

lemma cache_updateCache: "map_of (cache (updateCache key e s)) key = Some e"
  by (simp add: updateCache_def map_of_map_set)

lemma wal_updateCache [simp]: "wal (updateCache k e s) = wal s"
  by (simp add: updateCache_def)

section \<open>Validation of \<open>put\<close>\<close>

lemma encrypt_not_invalid: "encrypt v \<noteq> Inl Invalid_key_or_value"
  by (cases v) (simp_all add: btoa_def)

text \<open>
  C8: \<open>put\<close> throws \<open>Invalid key or value\<close> exactly when the key is empty or the value
  is \<open>undefined\<close>, and a \<open>put\<close> that throws, with this or any other error, returns
  the whole state (store, cache, write log, encrypted keys and the rest) as it was.
\<close>

theorem put_invalid_argument:
  "(fst (put key v opts now s) = Inl Invalid_key_or_value \<longleftrightarrow> key = [] \<or> v = Undefined) \<and>
   (\<forall>e. fst (put key v opts now s) = Inl e \<longrightarrow> snd (put key v opts now s) = s)"
  using encrypt_not_invalid [of v]
  by (auto simp: put_def Let_def split: sum.splits prod.splits if_splits)

theorem put_invalid_argument_witness:
  "fst (put [] (Str [97]) no_options 0 empty_store) = Inl Invalid_key_or_value \<and>
   snd (put [] (Str [97]) no_options 0 empty_store) = empty_store \<and>
   fst (put [107] Undefined no_options 0 empty_store) = Inl Invalid_key_or_value \<and>
   snd (put [107] Undefined no_options 0 empty_store) = empty_store \<and>
   fst (put [107] (Str [97]) no_options 0 empty_store) \<noteq> Inl Invalid_key_or_value"
  using put_invalid_argument [of "[]" "Str [97]" no_options 0 empty_store]
        put_invalid_argument [of "[107]" Undefined no_options 0 empty_store]
        put_invalid_argument [of "[107]" "Str [97]" no_options 0 empty_store]
  by simp

section \<open>A stored \<open>null\<close>\<close>

text \<open>
  C10: for a non-empty key, \<open>put(key, null)\<close> succeeds and the next \<open>get(key)\<close>
  returns \<open>null\<close>, which is also what \<open>get\<close> returns for a key that is neither in the
  cache nor in the store.
\<close>

theorem put_null_then_get:
  assumes "key \<noteq> []"
  shows "fst (put key Null no_options now s) = Inr True \<and>
         fst (get maxlen key now' (snd (put key Null no_options now s))) = Inr Null \<and>
         (\<not> map_has key (cache s) \<and> \<not> map_has key (store s) \<longrightarrow> fst (get maxlen key now' s) = Inr Null)"
proof -
  let ?e = "\<lparr>e_value = Null, e_timestamp = now, e_encrypted = False, e_compressed = False,
            e_expiry = None\<rparr>"
  have p: "fst (put key Null no_options now s) = Inr True"
    using assms by (simp add: put_def no_options_def Let_def)
  have c: "map_of (cache (snd (put key Null no_options now s))) key = Some ?e"
    using assms
    by (simp add: put_def no_options_def Let_def persist_def recordStats_def cache_updateCache
        split: stat_op.splits)
  have g: "fst (get maxlen key now' (snd (put key Null no_options now s))) = Inr Null"
    by (simp add: get_def Let_def c expired_def processValue_def)
  have m: "\<not> map_has key (cache s) \<and> \<not> map_has key (store s) \<longrightarrow> fst (get maxlen key now' s) = Inr Null"
    by (simp add: get_def Let_def map_has_map_of)
  from p g m show ?thesis by simp
qed

theorem put_null_then_get_witness:
  "fst (put [107] Null no_options 0 empty_store) = Inr True \<and>
   fst (get 536870888 [107] 5 (snd (put [107] Null no_options 0 empty_store))) = Inr Null \<and>
   fst (get 536870888 [107] 5 empty_store) = Inr Null"
  using put_null_then_get [where key = "[107]" and now = 0 and s = empty_store
                                 and maxlen = 536870888 and now' = 5]
  by (simp add: map_has_def empty_store_def)

section \<open>The write log\<close>

lemma wal_delete: "wal (snd (delete key now s)) = wal s @ [WalDelete now key]"
  by (simp add: delete_def Let_def persist_def recordStats_def)

lemma wal_put_ok:
  "fst (put key v opts now s) = Inr r \<Longrightarrow>
     \<exists>sv. wal (snd (put key v opts now s)) = wal s @ [WalPut now key sv opts]"
  by (auto simp: put_def Let_def persist_def recordStats_def split: sum.splits if_splits prod.splits)

lemma wal_put_err:
  "fst (put key v opts now s) = Inl e \<Longrightarrow> wal (snd (put key v opts now s)) = wal s"
  by (auto simp: put_def Let_def split: sum.splits if_splits prod.splits)

text \<open>
  C9, as stated, fails: \<open>delete\<close> of a key that is not in the store reports
  \<open>success = false\<close> and still appends a \<open>DELETE\<close> record, because the record is pushed
  before the store is looked at.
\<close>

theorem delete_missing_key_counterexample:
  "fst (delete [107] 0 empty_store) = False \<and>
   wal (snd (delete [107] 0 empty_store)) = [WalDelete 0 [107]]"
  by (simp add: delete_def Let_def persist_def recordStats_def empty_store_def map_has_def)

text \<open>
  C9, amended: the log is written ahead of the mutation. Every call of \<open>delete\<close> appends
  one \<open>DELETE\<close> record, whether or not the key is present; a \<open>put\<close> that throws
  appends nothing; a \<open>put\<close> that returns appends one \<open>PUT\<close> record with its key and
  options.
\<close>

theorem wal_records_calls:
  "wal (snd (delete key now s)) = wal s @ [WalDelete now key] \<and>
   (\<forall>e. fst (put key v opts now s) = Inl e \<longrightarrow> wal (snd (put key v opts now s)) = wal s) \<and>
   (\<forall>r. fst (put key v opts now s) = Inr r \<longrightarrow>
      (\<exists>sv. wal (snd (put key v opts now s)) = wal s @ [WalPut now key sv opts]))"
  using wal_delete wal_put_ok wal_put_err by blast

theorem wal_records_calls_witness:
  "wal (snd (delete [107] 0 empty_store)) = wal empty_store @ [WalDelete 0 [107]] \<and>
   fst (put [] Null no_options 0 empty_store) = Inl Invalid_key_or_value \<and>
   wal (snd (put [] Null no_options 0 empty_store)) = wal empty_store \<and>
   fst (put [107] Null no_options 0 empty_store) = Inr True \<and>
   (\<exists>sv. wal (snd (put [107] Null no_options 0 empty_store)) =
      wal empty_store @ [WalPut 0 [107] sv no_options])"
proof -
  have a: "fst (put [] Null no_options 0 empty_store) = Inl Invalid_key_or_value"
    by (simp add: put_def)
  have b: "fst (put [107] Null no_options 0 empty_store) = Inr True"
    by (simp add: put_def no_options_def Let_def)
  show ?thesis
    using wal_records_calls [of "[107]" 0 empty_store "Null" no_options]
          wal_records_calls [of "[]" 0 empty_store "Null" no_options] a b
    by blast
qed

lemma put_valid_ok: "valid_put (key, v, opts, now) \<Longrightarrow> fst (put key v opts now s) = Inr True"
  by (auto simp: valid_put_def put_def Let_def split: sum.splits)

lemma wal_put_valid:
  "valid_put (key, v, opts, now) \<Longrightarrow>
     \<exists>sv. wal (snd (put key v opts now s)) = wal s @ [WalPut now key sv opts]"
  using wal_put_ok [OF put_valid_ok] by blast

lemma persisted_put_valid:
  "valid_put (key, v, opts, now) \<Longrightarrow>
     map_option snap_wal (persisted (snd (put key v opts now s))) =
       Some (drop (length (wal (snd (put key v opts now s))) - 1000)
               (wal (snd (put key v opts now s))))"
  by (auto simp: valid_put_def put_def Let_def persist_def recordStats_def
      split: stat_op.splits sum.splits)

lemma wal_put_all:
  "\<forall>r \<in> set reqs. valid_put r \<Longrightarrow>
     \<exists>ws. wal (put_all reqs s) = wal s @ ws \<and> length ws = length reqs"
proof (induction reqs arbitrary: s)
  case Nil
  then show ?case by simp
next
  case (Cons r reqs)
  obtain key v opts now where r: "r = (key, v, opts, now)" by (cases r) auto
  with Cons.prems have ok: "valid_put (key, v, opts, now)"
    by simp
  from wal_put_valid [OF ok] obtain sv where
    w: "wal (snd (put key v opts now s)) = wal s @ [WalPut now key sv opts]" by blast
  from Cons.IH [of "snd (put key v opts now s)"] Cons.prems obtain ws where
    "wal (put_all reqs (snd (put key v opts now s))) = wal (snd (put key v opts now s)) @ ws"
    "length ws = length reqs" by auto
  with w r show ?case by simp
qed

lemma persisted_put_all:
  "\<forall>r \<in> set reqs. valid_put r \<Longrightarrow> reqs \<noteq> [] \<Longrightarrow>
     map_option snap_wal (persisted (put_all reqs s)) =
       Some (drop (length (wal (put_all reqs s)) - 1000) (wal (put_all reqs s)))"
proof (induction reqs arbitrary: s)
  case Nil
  then show ?case by simp
next
  case (Cons r reqs)
  obtain key v opts now where r: "r = (key, v, opts, now)" by (cases r) auto
  with Cons.prems have ok: "valid_put (key, v, opts, now)"
    by simp
  show ?case
  proof (cases "reqs = []")
    case True
    with r persisted_put_valid [OF ok] show ?thesis by simp
  next
    case False
    with Cons.IH [of "snd (put key v opts now s)"] Cons.prems r show ?thesis by simp
  qed
qed

text \<open>
  C2: the log in memory is never cut. After 1001 calls of \<open>put\<close> on the empty store it
  holds 1001 records and the oldest one is still its first; only the copy that
  \<open>persist\<close> writes is cut to the last 1000.
\<close>

theorem wal_exceeds_1000:
  "length (wal (put_all (replicate 1001 ([107], Str [118], no_options, 0)) empty_store)) = 1001 \<and>
   hd (wal (put_all (replicate 1001 ([107], Str [118], no_options, 0)) empty_store)) =
     WalPut 0 [107] (Str [118]) no_options \<and>
   map_option (length \<circ> snap_wal)
     (persisted (put_all (replicate 1001 ([107], Str [118], no_options, 0)) empty_store)) =
     Some 1000"
proof -
  let ?r = "([107], Str [118], no_options, 0) :: jsstr \<times> jsval \<times> options \<times> int"
  let ?s1 = "snd (put [107] (Str [118]) no_options 0 empty_store)"
  have v: "\<forall>r \<in> set (replicate n ?r). valid_put r" for n
    by (simp add: valid_put_def no_options_def)
  have split: "replicate 1001 ?r = ?r # replicate 1000 ?r"
    by (simp flip: replicate_Suc)
  have w1: "wal ?s1 = [WalPut 0 [107] (Str [118]) no_options]"
    by (simp add: put_def Let_def persist_def recordStats_def no_options_def empty_store_def)
  from wal_put_all [OF v, of 1000 ?s1] obtain ws where
    ws: "wal (put_all (replicate 1000 ?r) ?s1) = wal ?s1 @ ws" "length ws = 1000" by auto
  have eq: "wal (put_all (replicate 1001 ?r) empty_store) =
              WalPut 0 [107] (Str [118]) no_options # ws"
    using ws w1 by (simp add: split)
  have p: "map_option snap_wal (persisted (put_all (replicate 1001 ?r) empty_store)) =
       Some (drop (length (wal (put_all (replicate 1001 ?r) empty_store)) - 1000)
                (wal (put_all (replicate 1001 ?r) empty_store)))"
    by (rule persisted_put_all [OF v]) simp
  have "map_option (length \<circ> snap_wal) (persisted (put_all (replicate 1001 ?r) empty_store)) =
        map_option length
          (map_option snap_wal (persisted (put_all (replicate 1001 ?r) empty_store)))"
    by (simp add: option.map_comp)
  also have "\<dots> = Some 1000"
    unfolding p eq using ws(2) by simp
  finally show ?thesis using eq ws(2) by simp
qed

section \<open>The set of encrypted keys\<close>

text \<open>
  C3: a key put with \<open>encrypted\<close> and then put again without it stays in
  \<open>encryptedKeys\<close>, although its entry now has \<open>encrypted = false\<close>: \<open>put\<close> adds to
  the set and never removes from it.
\<close>

theorem encryptedKeys_stale_after_plain_put:
  "[107] \<in> set (encryptedKeys
      (snd (put [107] (Str [119]) no_options 1
         (snd (put [107] (Str [118])
                 \<lparr>opt_ttl = None, opt_encrypted = True, opt_compress = False\<rparr> 0
                 empty_store))))) \<and>
   map_option e_encrypted (map_of (store
      (snd (put [107] (Str [119]) no_options 1
         (snd (put [107] (Str [118])
                 \<lparr>opt_ttl = None, opt_encrypted = True, opt_compress = False\<rparr> 0
                 empty_store))))) [107]) = Some False"
  by (simp add: put_def Let_def persist_def recordStats_def empty_store_def no_options_def
       updateCache_def set_add_def btoa_def padding_def defaultKey_def b64_char_def)

section \<open>The cache\<close>

lemma cache_updateCache_eq:
  "cache (updateCache key e s) = map_set key e (evicted (cacheSize s) (cache s))"
  by (simp add: updateCache_def evicted_def)

lemma cache_put:
  "fst (put key v opts now s) = Inr r \<Longrightarrow>
     \<exists>e. cache (snd (put key v opts now s)) =
       map_set key e (evicted (cacheSize s) (cache s))"
  by (auto simp: put_def Let_def persist_def recordStats_def cache_updateCache_eq
      split: sum.splits if_splits prod.splits)

lemma cacheSize_put [simp]: "cacheSize (snd (put key v opts now s)) = cacheSize s"
  by (auto simp: put_def Let_def persist_def recordStats_def updateCache_def
      split: sum.splits if_splits prod.splits)

lemma cacheSize_put_all [simp]: "cacheSize (put_all reqs s) = cacheSize s"
  by (induction reqs s rule: put_all.induct) auto

lemma put_all_snoc:
  "put_all (xs @ [(key, v, opts, now)]) s = snd (put key v opts now (put_all xs s))"
  by (induction xs s rule: put_all.induct) auto

lemma keys_map_set:
  "map fst (map_set k v m) = (if k \<in> set (map fst m) then map fst m else map fst m @ [k])"
  by (induction m) auto

lemma keys_map_delete_hd:
  "distinct (map fst (p # ps)) \<Longrightarrow> map_delete (fst p) (p # ps) = ps"
proof -
  assume "distinct (map fst (p # ps))"
  then have "\<forall>q \<in> set ps. fst q \<noteq> fst p" by (auto simp: image_iff)
  then have "filter (\<lambda>q. fst q \<noteq> fst p) ps = ps" by (simp add: filter_id_conv)
  then show ?thesis by (simp add: map_delete_def)
qed

lemma cache_fill:
  "cache s = [] \<Longrightarrow> length xs \<le> cacheSize s \<Longrightarrow> distinct (map fst xs) \<Longrightarrow>
     \<forall>r \<in> set xs. valid_put r \<Longrightarrow> map fst (cache (put_all xs s)) = map fst xs"
proof (induction xs rule: rev_induct)
  case Nil
  then show ?case by simp
next
  case (snoc x xs)
  obtain key v opts now where x: "x = (key, v, opts, now)" by (cases x) auto
  from snoc have ih: "map fst (cache (put_all xs s)) = map fst xs" by simp
  then have len: "length (cache (put_all xs s)) = length xs"
    by (metis length_map)
  from snoc.prems x have "valid_put (key, v, opts, now)" by simp
  from cache_put [OF put_valid_ok [OF this], of "put_all xs s"] obtain e where
    "cache (snd (put key v opts now (put_all xs s))) = map_set key e (cache (put_all xs s))"
    using snoc.prems(2) len by (auto simp: evicted_def)
  then show ?case using ih snoc.prems(3) x by (simp add: put_all_snoc keys_map_set)
qed

lemma cache_overflow:
  assumes "cache s = []" "0 < cacheSize s" "length xs = cacheSize s"
      "distinct (map fst (xs @ [x]))" "\<forall>r \<in> set (xs @ [x]). valid_put r"
      "cache s' = cache (put_all xs s)" "cacheSize s' = cacheSize s"
  shows "map fst (cache (put_all [x] s')) = tl (map fst xs) @ [fst x]"
proof -
  obtain key v opts now where x: "x = (key, v, opts, now)" by (cases x) auto
  have keys: "map fst (cache (put_all xs s)) = map fst xs"
    using assms by (intro cache_fill) auto
  then have len: "length (cache s') = cacheSize s'"
    using assms by (metis length_map)
  from assms have "xs \<noteq> []" by auto
  with keys assms(6) have "cache s' \<noteq> []" by auto
  then obtain p ps where c: "cache s' = p # ps" by (auto simp: neq_Nil_conv)
  have d: "distinct (map fst (p # ps))" using keys assms(4,6) c by simp
  from assms x have "valid_put (key, v, opts, now)" by simp
  from cache_put [OF put_valid_ok [OF this], of s'] obtain e where
    "cache (snd (put key v opts now s')) = map_set key e ps"
    using len c keys_map_delete_hd [OF d] by (auto simp: evicted_def)
  moreover have "map fst ps = tl (map fst xs)" using keys c assms(6) by (metis list.sel(3) list.simps(9))
  moreover have "key \<notin> set (tl (map fst xs))"
  proof
    assume "key \<in> set (tl (map fst xs))"
    then have "key \<in> set (map fst xs)" by (metis list.set_sel(2) tl_Nil)
    with assms(4) x show False by simp
  qed
  ultimately show ?thesis using x by (simp add: keys_map_set)
qed

lemma get_hit:
  "map_of (cache s) k = Some e \<Longrightarrow> \<not> expired e t \<Longrightarrow>
     cache (snd (get maxlen k t s)) = cache s \<and> cacheSize (snd (get maxlen k t s)) = cacheSize s"
  by (simp add: get_def Let_def recordStats_def split: stat_op.splits)

text \<open>
  C4: from an empty cache of capacity \<open>C > 0\<close>, after \<open>C + 1\<close> puts of distinct keys
  the cache holds the keys of all but the first put, in the order of insertion, so
  exactly \<open>C\<close> keys, and the first key inserted is the one evicted. A \<open>get\<close> that hits
  the cache on an entry that has not expired leaves the cache as it is, and with such a
  \<open>get\<close> before the last put the same key is evicted: eviction follows insertion, not
  use.
\<close>

theorem cache_fifo_eviction:
  assumes "cache s = []" and "0 < cacheSize s" and "length xs = cacheSize s"
    and "distinct (map fst (xs @ [x]))" and "\<forall>r \<in> set (xs @ [x]). valid_put r"
  shows "map fst (cache (put_all (xs @ [x]) s)) = tl (map fst xs) @ [fst x] \<and>
         length (cache (put_all (xs @ [x]) s)) = cacheSize s \<and>
         (\<forall>k e t. map_of (cache (put_all xs s)) k = Some e \<and> \<not> expired e t \<longrightarrow>
            cache (snd (get maxlen k t (put_all xs s))) = cache (put_all xs s) \<and>
            map fst (cache (put_all [x] (snd (get maxlen k t (put_all xs s))))) =
              tl (map fst xs) @ [fst x])"
proof -
  obtain key v opts now where x: "x = (key, v, opts, now)" by (cases x) auto
  have a: "map fst (cache (put_all (xs @ [x]) s)) = tl (map fst xs) @ [fst x]"
    using cache_overflow [OF assms, of "put_all xs s"] by (simp add: x put_all_snoc)
  have "length (map fst (cache (put_all (xs @ [x]) s))) = cacheSize s"
    unfolding a using assms(2,3) by simp
  then have b: "length (cache (put_all (xs @ [x]) s)) = cacheSize s" by simp
  have c: "cache (snd (get maxlen k t (put_all xs s))) = cache (put_all xs s) \<and>
            map fst (cache (put_all [x] (snd (get maxlen k t (put_all xs s))))) =
              tl (map fst xs) @ [fst x]"
    if "map_of (cache (put_all xs s)) k = Some e" "\<not> expired e t" for k e t
    using get_hit [OF that] cache_overflow [OF assms, of "snd (get maxlen k t (put_all xs s))"] by simp
  from a b c show ?thesis by blast
qed

theorem cache_fifo_eviction_witness:
  "map fst (cache (put_all
       ([([97], Str [49], no_options, 0), ([98], Str [50], no_options, 1)] @
        [([99], Str [51], no_options, 2)])
       (empty_store\<lparr>cacheSize := 2\<rparr>))) = [[98], [99]] \<and>
   cache (snd (get 536870888 [97] 5
       (put_all [([97], Str [49], no_options, 0), ([98], Str [50], no_options, 1)]
          (empty_store\<lparr>cacheSize := 2\<rparr>)))) =
     cache (put_all [([97], Str [49], no_options, 0), ([98], Str [50], no_options, 1)]
          (empty_store\<lparr>cacheSize := 2\<rparr>)) \<and>
   map fst (cache (put_all [([99], Str [51], no_options, 2)]
       (snd (get 536870888 [97] 5
          (put_all [([97], Str [49], no_options, 0), ([98], Str [50], no_options, 1)]
             (empty_store\<lparr>cacheSize := 2\<rparr>)))))) = [[98], [99]]"
proof -
  let ?s = "empty_store\<lparr>cacheSize := 2\<rparr>"
  let ?xs = "[([97], Str [49], no_options, 0), ([98], Str [50], no_options, 1)]
               :: (jsstr \<times> jsval \<times> options \<times> int) list"
  let ?x = "([99], Str [51], no_options, 2) :: jsstr \<times> jsval \<times> options \<times> int"
  let ?e = "\<lparr>e_value = Str [49], e_timestamp = 0, e_encrypted = False, e_compressed = False,
            e_expiry = None\<rparr>"
  have h1: "cache ?s = []" and h2: "0 < cacheSize ?s" and h3: "length ?xs = cacheSize ?s"
    by (simp_all add: empty_store_def)
  have h4: "distinct (map fst (?xs @ [?x]))" by simp
  have h5: "\<forall>r \<in> set (?xs @ [?x]). valid_put r"
    by (simp add: valid_put_def no_options_def)
  have c: "map_of (cache (put_all ?xs ?s)) [97] = Some ?e"
    by (simp add: put_def Let_def persist_def recordStats_def updateCache_def no_options_def
        empty_store_def)
  have x: "\<not> expired ?e 5" by (simp add: expired_def)
  show ?thesis
    using cache_fifo_eviction [OF h1 h2 h3 h4 h5] c x by auto
qed

section \<open>The codec\<close>

subsection \<open>Base64 and encryption\<close>

lemma unat_b64_char:
  "i < 64 \<Longrightarrow> unat (b64_char i) =
     (if i < 26 then 65 + i else if i < 52 then 71 + i else if i < 62 then i - 4
      else if i = 62 then 43 else 47)"
proof -
  assume i: "i < 64"
  have small: "unat (of_nat n :: 16 word) = n" if "n < 65536" for n
    using that by (simp add: unat_of_nat)
  show ?thesis
  proof (cases "i < 26")
    case True
    then have "unat (of_nat (65 + i) :: 16 word) = 65 + i" by (intro small) simp
    with True show ?thesis by (simp add: b64_char_def del: of_nat_add)
  next
    case a: False
    show ?thesis
    proof (cases "i < 52")
      case True
      then have "unat (of_nat (97 + (i - 26)) :: 16 word) = 97 + (i - 26)" by (intro small) simp
      with a True show ?thesis by (simp add: b64_char_def del: of_nat_add of_nat_diff)
    next
      case b: False
      show ?thesis
      proof (cases "i < 62")
        case True
        then have "unat (of_nat (48 + (i - 52)) :: 16 word) = 48 + (i - 52)"
          by (intro small) simp
        with a b True show ?thesis by (simp add: b64_char_def del: of_nat_add of_nat_diff)
      next
        case False
        with a b i show ?thesis by (simp add: b64_char_def)
      qed
    qed
  qed
qed

lemma b64_index_char: "i < 64 \<Longrightarrow> b64_index (b64_char i) = Some i"
  by (auto simp: b64_index_def Let_def unat_b64_char)

lemma b64_char_plain: "i < 64 \<Longrightarrow> b64_char i \<noteq> 61 \<and> \<not> is_ascii_whitespace (b64_char i)"
proof -
  assume i: "i < 64"
  have "unat (b64_char i) \<notin> {61, 9, 10, 12, 13, 32}"
    using i by (auto simp: unat_b64_char)
  then show ?thesis
    by (auto simp: is_ascii_whitespace_def)
qed

lemma sextets_bound: "\<forall>b \<in> set bs. b < 256 \<Longrightarrow> \<forall>x \<in> set (sextets bs). x < 64"
  by (induction bs rule: sextets.induct) auto

lemma div_mod_pack: "y < n \<Longrightarrow> (x * n + y) div n = x \<and> (x * n + y) mod n = (y::nat)"
  by simp

lemma octets_of_three:
  assumes "(a::nat) < 256" "(b::nat) < 256" "(c::nat) < 256"
  shows "a div 4 * 4 + (a mod 4 * 16 + b div 16) div 16 = a"
    and "(a mod 4 * 16 + b div 16) mod 16 * 16 + (b mod 16 * 4 + c div 64) div 4 = b"
    and "(b mod 16 * 4 + c div 64) mod 4 * 64 + c mod 64 = c"
proof -
  have b16: "b div 16 < 16" using assms(2) by simp
  have c64: "c div 64 < 4" using assms(3) by simp
  show "a div 4 * 4 + (a mod 4 * 16 + b div 16) div 16 = a"
    using div_mod_pack [OF b16, of "a mod 4"] by simp
  show "(a mod 4 * 16 + b div 16) mod 16 * 16 + (b mod 16 * 4 + c div 64) div 4 = b"
    using div_mod_pack [OF b16, of "a mod 4"] div_mod_pack [OF c64, of "b mod 16"] by simp
  show "(b mod 16 * 4 + c div 64) mod 4 * 64 + c mod 64 = c"
    using div_mod_pack [OF c64, of "b mod 16"] by simp
qed

lemma octets_of_two:
  assumes "(a::nat) < 256" "(b::nat) < 256"
  shows "(a mod 4 * 16 + b div 16) mod 16 * 16 + (b mod 16 * 4) div 4 = b"
proof -
  have b16: "b div 16 < 16" using assms(2) by simp
  show ?thesis using div_mod_pack [OF b16, of "a mod 4"] by simp
qed

lemma octets_of_one: "(a::nat) div 4 * 4 + (a mod 4 * 16) div 16 = a"
  by simp

lemma octets_sextets: "\<forall>b \<in> set bs. b < 256 \<Longrightarrow> octets (sextets bs) = bs"
proof (induction bs rule: sextets.induct)
  case (1 a b c rest)
  then have ab: "a < 256" "b < 256" "c < 256" by auto
  from octets_of_three [OF ab] "1.IH" "1.prems" show ?case by simp
next
  case (2 a b)
  then have ab: "a < 256" "b < 256" by auto
  from octets_of_three(1) [OF ab ab(1)] octets_of_two [OF ab] show ?case by simp
next
  case (3 a)
  from octets_of_one [of a] show ?case by simp
next
  case 4
  then show ?case by simp
qed

lemma length_sextets:
  "length (sextets bs) mod 4 \<noteq> 1 \<and>
   (length (sextets bs) + (3 - length bs mod 3) mod 3) mod 4 = 0"
proof (induction bs rule: sextets.induct)
  case (1 a b c rest)
  have "length (a # b # c # rest) mod 3 = length rest mod 3" by simp
  with 1 show ?case by (simp add: mod_Suc)
next
  case (2 a b)
  show ?case by simp
next
  case (3 a)
  show ?case by simp
next
  case 4
  show ?case by simp
qed


lemma strip_padding_encoded:
  assumes "61 \<notin> set body" "k \<le> 2" "(length body + k) mod 4 = 0"
  shows "strip_padding (body @ replicate k 61) = body"
proof -
  consider "k = 0" | "k = 1" | "k = 2" using assms(2) by linarith
  then show ?thesis
  proof cases
    case 1
    show ?thesis
    proof (cases "rev body")
      case Nil
      with 1 show ?thesis by (simp add: strip_padding_def)
    next
      case (Cons c1 r)
      then have "c1 \<in> set body" by (metis list.set_intros(1) set_rev)
      with assms(1) have "c1 \<noteq> 61" by auto
      with 1 Cons show ?thesis by (cases r) (simp_all add: strip_padding_def)
    qed
  next
    case 2
    show ?thesis
    proof (cases "rev body")
      case Nil
      with 2 assms(3) show ?thesis by simp
    next
      case (Cons c2 r)
      then have "c2 \<in> set body" by (metis list.set_intros(1) set_rev)
      with assms(1) have "c2 \<noteq> 61" by auto
      moreover have body: "body = rev r @ [c2]" using Cons by (metis rev.simps(2) rev_rev_ident)
      ultimately show ?thesis using 2 assms(3) unfolding body by (simp add: strip_padding_def)
    qed
  next
    case 3
    then have "replicate k (61 :: jschar) = [61, 61]" by (simp add: numeral_2_eq_2)
    then show ?thesis using assms(3) 3 by (simp add: strip_padding_def)
  qed
qed

lemma atob_btoa:
  assumes "\<forall>c \<in> set s. unat c \<le> 255"
  shows "\<exists>b. btoa s = Inr b \<and> atob b = Some s"
proof -
  let ?bytes = "map unat s"
  let ?sx = "sextets ?bytes"
  let ?body = "map b64_char ?sx"
  let ?k = "(3 - length s mod 3) mod 3"
  have bytes: "\<forall>b \<in> set ?bytes. b < 256" using assms by auto
  note sx = sextets_bound [OF bytes]
  have enc: "btoa s = Inr (?body @ replicate ?k 61)"
    using assms by (auto simp: btoa_def padding_def)
  have plain: "\<forall>c \<in> set ?body. c \<noteq> 61 \<and> \<not> is_ascii_whitespace c"
    using sx b64_char_plain by auto
  have ws: "filter (\<lambda>c. \<not> is_ascii_whitespace c) (?body @ replicate ?k 61) = ?body @ replicate ?k 61"
    using plain by (auto simp: filter_id_conv is_ascii_whitespace_def)
  have len: "length ?body mod 4 \<noteq> 1" "(length ?body + ?k) mod 4 = 0"
    using length_sextets [of ?bytes] by simp_all
  have "61 \<notin> set ?body" using plain by auto
  then have strip: "strip_padding (?body @ replicate ?k 61) = ?body"
    using len(2) by (intro strip_padding_encoded) auto
  have idx: "\<forall>c \<in> set ?body. b64_index c \<noteq> None"
    using sx by (auto simp: b64_index_char)
  have "map (\<lambda>c. the (b64_index c)) ?body = map (\<lambda>i. the (b64_index (b64_char i))) ?sx"
    by (simp add: comp_def)
  also have "\<dots> = map (\<lambda>i. i) ?sx"
    by (rule map_cong) (use sx in \<open>simp_all add: b64_index_char\<close>)
  finally have dec: "map (\<lambda>c. the (b64_index c)) ?body = ?sx" by simp
  have "atob (?body @ replicate ?k 61) = Some (map of_nat (octets ?sx))"
    unfolding atob_def ws strip Let_def dec using len(1) idx by simp
  also have "map of_nat (octets ?sx) = s"
    unfolding octets_sextets [OF bytes] by (induction s) simp_all
  finally show ?thesis using enc by simp
qed

lemma xor_from_involution: "xor_from i (xor_from i s) = s"
  by (induction s arbitrary: i) (simp_all add: xor.assoc)

lemma defaultKey_bytes: "j < 10 \<Longrightarrow> unat (defaultKey ! j) \<le> 255"
proof -
  assume "j < 10"
  then have "defaultKey ! j \<in> set defaultKey"
    by (intro nth_mem) (simp add: defaultKey_def)
  moreover have "\<forall>k \<in> set defaultKey. unat k \<le> 255" by (simp add: defaultKey_def)
  ultimately show ?thesis by blast
qed

lemma xor_byte: "unat (a :: jschar) \<le> 255 \<Longrightarrow> unat b \<le> 255 \<Longrightarrow> unat (a XOR b) \<le> 255"
proof -
  assume a: "unat a \<le> 255" and b: "unat b \<le> 255"
  have ta: "take_bit 8 (unat a) = unat a" using a by (simp add: take_bit_nat_eq_self_iff)
  have tb: "take_bit 8 (unat b) = unat b" using b by (simp add: take_bit_nat_eq_self_iff)
  have "unat (a XOR b) = unat a XOR unat b" by (simp add: unsigned_xor_eq)
  also have "\<dots> = take_bit 8 (unat a XOR unat b)" by (simp add: ta tb)
  also have "\<dots> < 2 ^ 8" by (rule take_bit_nat_less_exp)
  finally show ?thesis by simp
qed

lemma xor_from_bytes:
  "\<forall>c \<in> set s. unat c \<le> 255 \<Longrightarrow> \<forall>c \<in> set (xor_from i s). unat c \<le> 255"
proof (induction s arbitrary: i)
  case Nil
  then show ?case by simp
next
  case (Cons c s)
  have "length defaultKey = 10" by (simp add: defaultKey_def)
  then have "unat (defaultKey ! (i mod length defaultKey)) \<le> 255"
    by (simp add: defaultKey_bytes)
  with Cons show ?case by (simp add: xor_byte)
qed

lemma decrypt_encrypt:
  assumes "\<forall>c \<in> set text. unat c \<le> 255"
  shows "\<exists>b. encrypt (Str text) = Inr b \<and> decrypt (Str b) = Str text"
proof -
  from atob_btoa [OF xor_from_bytes [OF assms, of 0]] obtain b where
    "btoa (xor_from 0 text) = Inr b" "atob b = Some (xor_from 0 text)" by blast
  then show ?thesis by (simp add: decrypt_def xor_from_involution)
qed

subsection \<open>Compression\<close>

lemma unat_digit_char: "d < 10 \<Longrightarrow> unat (digit_char d) = 48 + d"
proof -
  assume "d < 10"
  then have "unat (of_nat (48 + d) :: 16 word) = 48 + d"
    by (simp add: unat_of_nat del: of_nat_add)
  then show ?thesis by (simp add: digit_char_def del: of_nat_add)
qed

lemma digit_char_props: "d < 10 \<Longrightarrow> is_digit (digit_char d) \<and> digit_val (digit_char d) = d"
  by (simp add: is_digit_def digit_val_def unat_digit_char)

lemma decimal_digits: "\<forall>c \<in> set (decimal n). is_digit c"
proof (induction n rule: decimal.induct)
  case (1 n)
  show ?case
  proof (cases "n < 10")
    case True
    then show ?thesis by (subst decimal.simps) (simp add: digit_char_props)
  next
    case False
    with 1 show ?thesis by (subst decimal.simps) (simp add: digit_char_props)
  qed
qed

lemma decimal_nonempty: "decimal n \<noteq> []"
  by (subst decimal.simps) simp

lemma parseInt_snoc: "parseInt (ds @ [c]) = parseInt ds * 10 + digit_val c"
  by (simp add: parseInt_def)

lemma parseInt_decimal: "parseInt (decimal n) = n"
proof (induction n rule: decimal.induct)
  case (1 n)
  show ?case
  proof (cases "n < 10")
    case True
    then show ?thesis by (subst decimal.simps) (simp add: parseInt_def digit_char_props)
  next
    case False
    with 1 have "parseInt (decimal (n div 10)) = n div 10" by simp
    with False show ?thesis
      by (subst decimal.simps) (simp add: parseInt_snoc digit_char_props)
  qed
qed

lemma compress_hd: "\<exists>ys. compress (x # xs) = x # ys"
  by (simp add: Let_def)

lemma takeWhile_digit_compress:
  "xs = [] \<or> \<not> is_digit (hd xs) \<Longrightarrow> takeWhile is_digit (compress xs) = []"
proof (cases xs)
  case Nil
  then show ?thesis by simp
next
  case (Cons x xs')
  assume "xs = [] \<or> \<not> is_digit (hd xs)"
  with Cons have "\<not> is_digit x" by simp
  moreover obtain ys where "compress (x # xs') = x # ys" using compress_hd by blast
  ultimately show ?thesis using Cons by simp
qed

lemma unambiguous_tl: "unambiguous (c # cs) \<Longrightarrow> unambiguous cs"
  by (cases cs) auto

lemma unambiguous_append: "unambiguous (xs @ ys) \<Longrightarrow> unambiguous ys"
proof (induction xs)
  case Nil
  then show ?case by simp
next
  case (Cons x xs)
  then show ?case using unambiguous_tl [of x "xs @ ys"] by simp
qed

lemma unambiguous_next: "unambiguous (p # cs) \<Longrightarrow> \<not> is_line_terminator p \<Longrightarrow> cs = [] \<or> \<not> is_digit (hd cs)"
  by (cases cs) auto

lemma unambiguous_after_run:
  "unambiguous (c # replicate k c @ rest) \<Longrightarrow> \<not> is_line_terminator c \<Longrightarrow>
     rest = [] \<or> \<not> is_digit (hd rest)"
proof (induction k)
  case 0
  then show ?case using unambiguous_next by simp
next
  case (Suc k)
  from Suc.prems(1) have "unambiguous (c # replicate k c @ rest)"
    using unambiguous_tl by simp
  with Suc show ?case by simp
qed

lemma decompress_literal:
  "\<not> is_digit c \<Longrightarrow> ys = [] \<or> \<not> is_digit (hd ys) \<Longrightarrow> decompress maxlen ys = Inr r \<Longrightarrow>
     k + length r \<le> maxlen \<Longrightarrow>
     decompress maxlen (replicate k c @ ys) = Inr (replicate k c @ r)"
proof (induction k)
  case 0
  then show ?case by simp
next
  case (Suc k)
  have "takeWhile is_digit (replicate k c @ ys) = []"
    using Suc.prems(1,2) by (cases k; cases ys) auto
  moreover have "decompress maxlen (replicate k c @ ys) = Inr (replicate k c @ r)"
    using Suc by simp
  ultimately show ?case using Suc.prems(4) by (simp add: Let_def)
qed

lemma run_split: "cs = replicate (length (takeWhile (\<lambda>x. x = c) cs)) c @ dropWhile (\<lambda>x. x = c) cs"
proof -
  have "takeWhile (\<lambda>x. x = c) cs = replicate (length (takeWhile (\<lambda>x. x = c) cs)) c"
    by (intro replicate_eqI) (auto dest: set_takeWhileD)
  then show ?thesis by (metis takeWhile_dropWhile_id)
qed

lemma decompress_compress:
  "unambiguous t \<Longrightarrow> length t \<le> maxlen \<Longrightarrow> decompress maxlen (compress t) = Inr t"
proof (induction "length t" arbitrary: t rule: less_induct)
  case less
  show ?case
  proof (cases t)
    case Nil
    then show ?thesis by simp
  next
    case (Cons c cs)
    let ?run = "takeWhile (\<lambda>x. x = c) cs"
    let ?rest = "dropWhile (\<lambda>x. x = c) cs"
    let ?k = "length ?run"
    have cs: "cs = replicate ?k c @ ?rest" by (rule run_split)
    have len: "length t = Suc ?k + length ?rest"
    proof -
      have "length (?run @ ?rest) = length cs" by (simp only: takeWhile_dropWhile_id)
      then have "?k + length ?rest = length cs" by (simp only: length_append)
      then show ?thesis using Cons by simp
    qed
    have lcs: "Suc (length cs) \<le> maxlen" using less.prems(2) Cons by simp
    have ucs: "unambiguous cs" using less.prems(1) Cons unambiguous_tl by blast
    have ihcs: "decompress maxlen (compress cs) = Inr cs"
      using less.hyps [of cs] ucs Cons lcs by simp
    show ?thesis
    proof (cases "is_line_terminator c")
      case True
      then show ?thesis using Cons ihcs lcs by (simp add: Let_def)
    next
      case nlt: False
      show ?thesis
      proof (cases "?run = []")
        case True
        have "cs = [] \<or> \<not> is_digit (hd cs)"
          using less.prems(1) Cons nlt unambiguous_next by blast
        then have "takeWhile is_digit (compress cs) = []"
          by (rule takeWhile_digit_compress)
        then show ?thesis using Cons True ihcs lcs by (simp add: Let_def)
      next
        case False
        then have kpos: "0 < ?k" by simp
        then obtain k' where k': "?k = Suc k'" by (cases ?k) auto
        have nd: "\<not> is_digit c"
        proof -
          have "unambiguous (c # c # replicate k' c @ ?rest)"
            using less.prems(1) Cons cs k' by (metis replicate_Suc append_Cons)
          with nlt show ?thesis by simp
        qed
        have urest: "unambiguous ?rest"
          using ucs cs unambiguous_append by metis
        have lrest: "length ?rest < length t"
          using Cons length_dropWhile_le [of "\<lambda>x. x = c" cs] by simp
        have ihrest: "decompress maxlen (compress ?rest) = Inr ?rest"
          using less.hyps [OF lrest urest] lrest less.prems(2) by simp
        have "unambiguous (c # replicate ?k c @ ?rest)" using less.prems(1) Cons cs by simp
        then have first: "?rest = [] \<or> \<not> is_digit (hd ?rest)"
          using nlt by (rule unambiguous_after_run)
        then have tw: "takeWhile is_digit (compress ?rest) = []"
          by (rule takeWhile_digit_compress)
        have crest: "compress ?rest = [] \<or> \<not> is_digit (hd (compress ?rest))"
          using tw by (cases "compress ?rest") (auto split: if_splits)
        have fits: "Suc ?k + length ?rest \<le> maxlen" using len less.prems(2) by simp
        have whole: "replicate (Suc ?k) c @ ?rest = t" using Cons cs by simp
        show ?thesis
        proof (cases "3 < Suc ?k")
          case True
          have c1: "compress t = c # decimal (Suc ?k) @ compress ?rest"
            using Cons False nlt True by (simp add: Let_def)
          have t1: "takeWhile is_digit (decimal (Suc ?k) @ compress ?rest) = decimal (Suc ?k)"
            using decimal_digits [of "Suc ?k"] tw by (simp add: takeWhile_append2)
          have d1: "dropWhile is_digit (decimal (Suc ?k) @ compress ?rest) = compress ?rest"
            using decimal_digits [of "Suc ?k"] tw
            by (simp add: dropWhile_append2) (metis takeWhile_dropWhile_id append_Nil)
          have "decompress maxlen (compress t) = Inr (replicate (Suc ?k) c @ ?rest)"
            unfolding c1
            using nlt decimal_nonempty [of "Suc ?k"] ihrest fits
            by (simp add: Let_def t1 d1 parseInt_decimal del: replicate_Suc)
          then show ?thesis using whole by simp
        next
          case le3: False
          have c2: "compress t = replicate (Suc ?k) c @ compress ?rest"
          proof -
            have "?run = replicate ?k c"
              by (intro replicate_eqI) (auto dest: set_takeWhileD)
            then show ?thesis using Cons False nlt le3 by (simp add: Let_def)
          qed
          have "decompress maxlen (compress t) = Inr (replicate (Suc ?k) c @ ?rest)"
            unfolding c2 using nd crest ihrest fits by (rule decompress_literal)
          then show ?thesis using whole by simp
        qed
      qed
    qed
  qed
qed

subsection \<open>Round trip through \<open>put\<close> and \<open>get\<close>\<close>

lemma put_cache_plain:
  assumes "key \<noteq> []" "v \<noteq> Undefined" "\<not> opt_encrypted opts" "opt_ttl opts = None"
  shows "map_of (cache (snd (put key v opts t0 s))) key =
           Some \<lparr>e_value = (case v of Str t \<Rightarrow> if opt_compress opts then Str (compress t) else v
                             | _ \<Rightarrow> v),
                 e_timestamp = t0, e_encrypted = False, e_compressed = opt_compress opts,
                 e_expiry = None\<rparr>"
  using assms
  by (simp add: put_def Let_def persist_def recordStats_def cache_updateCache
      split: stat_op.splits)

lemma put_cache_encrypted:
  assumes "key \<noteq> []" "v \<noteq> Undefined" "opt_encrypted opts" "opt_ttl opts = None"
    "encrypt v = Inr b"
  shows "map_of (cache (snd (put key v opts t0 s))) key =
           Some \<lparr>e_value = (if opt_compress opts then Str (compress b) else Str b),
                 e_timestamp = t0, e_encrypted = True, e_compressed = opt_compress opts,
                 e_expiry = None\<rparr>"
  using assms
  by (simp add: put_def Let_def persist_def recordStats_def cache_updateCache
      split: stat_op.splits)

lemma get_cached:
  "map_of (cache s) key = Some e \<Longrightarrow> e_expiry e = None \<Longrightarrow>
     fst (get maxlen key t1 s) = processValue maxlen (e_value e) e"
  by (simp add: get_def Let_def expired_def)

lemma round_trip_text:
  assumes "key \<noteq> []" "opt_ttl opts = None" "codec_safe maxlen opts text"
  shows "fst (put key (Str text) opts t0 s) = Inr True \<and>
         fst (get maxlen key t1 (snd (put key (Str text) opts t0 s))) = Inr (Str text)"
proof (cases "opt_encrypted opts")
  case False
  have ok: "fst (put key (Str text) opts t0 s) = Inr True"
    using assms(1) False by (simp add: put_def Let_def)
  have dc: "opt_compress opts \<Longrightarrow> decompress maxlen (compress text) = Inr text"
    using assms(3) False by (simp add: codec_safe_def payload_def decompress_compress)
  have "fst (get maxlen key t1 (snd (put key (Str text) opts t0 s))) = Inr (Str text)"
    using get_cached [OF put_cache_plain [OF assms(1) _ False assms(2), of "Str text" t0 s],
                      of maxlen t1]
      False dc
    by (simp add: processValue_def)
  with ok show ?thesis by simp
next
  case True
  with assms(3) have bytes: "\<forall>c \<in> set text. unat c \<le> 255" by (simp add: codec_safe_def)
  from decrypt_encrypt [OF bytes] obtain b where
    b: "encrypt (Str text) = Inr b" "decrypt (Str b) = Str text" by blast
  have ok: "fst (put key (Str text) opts t0 s) = Inr True"
    using assms(1) True b(1) by (simp add: put_def Let_def)
  have dc: "opt_compress opts \<Longrightarrow> decompress maxlen (compress b) = Inr b"
    using assms(3) True b(1) by (simp add: codec_safe_def payload_def decompress_compress)
  have "fst (get maxlen key t1 (snd (put key (Str text) opts t0 s))) = Inr (Str text)"
    using get_cached [OF put_cache_encrypted [OF assms(1) _ True assms(2) b(1), of t0 s],
                      of maxlen t1]
      True dc b(2)
    by (simp add: processValue_def)
  with ok show ?thesis by simp
qed

lemma round_trip_plain:
  assumes "key \<noteq> []" "v \<noteq> Undefined"
  shows "fst (get maxlen key t1 (snd (put key v no_options t0 s))) = Inr v"
proof -
  have "map_of (cache (snd (put key v no_options t0 s))) key =
          Some \<lparr>e_value = v, e_timestamp = t0, e_encrypted = False, e_compressed = False,
                e_expiry = None\<rparr>"
    using put_cache_plain [OF assms, of no_options t0 s]
    by (cases v) (simp_all add: no_options_def)
  from get_cached [OF this, of maxlen t1] show ?thesis by (simp add: processValue_def)
qed

text \<open>
  C1, as stated, fails: the value \<open>"c "\<close>, which has no digit, put with \<open>encrypted\<close>
  and \<open>compress\<close>, is stored as the Base64 text \<open>"B0U="\<close>; decompression reads
  \<open>B0\<close> as zero copies of \<open>B\<close>, and \<open>get\<close> returns \<open>null\<close>. And a text with a
  code unit above 255 cannot be put with \<open>encrypted\<close> at all: \<open>btoa\<close> throws.
\<close>

theorem codec_round_trip_counterexample:
  "\<not> is_digit 99 \<and> \<not> is_digit 32 \<and>
   fst (put [107] (Str [99, 32])
          \<lparr>opt_ttl = None, opt_encrypted = True, opt_compress = True\<rparr> 0 empty_store) = Inr True \<and>
   fst (get 536870888 [107] 1
          (snd (put [107] (Str [99, 32])
                  \<lparr>opt_ttl = None, opt_encrypted = True, opt_compress = True\<rparr> 0 empty_store))) =
     Inr Null \<and>
   fst (put [107] (Str [8364])
          \<lparr>opt_ttl = None, opt_encrypted = True, opt_compress = False\<rparr> 0 empty_store) =
     Inl InvalidCharacterError"
proof -
  let ?ec = "\<lparr>opt_ttl = None, opt_encrypted = True, opt_compress = True\<rparr>"
  let ?e = "\<lparr>e_value = Str [66, 48, 85, 61], e_timestamp = 0, e_encrypted = True,
            e_compressed = True, e_expiry = None\<rparr>"
  have d: "\<not> is_digit 99 \<and> \<not> is_digit 32" by (simp add: is_digit_def)
  have e: "encrypt (Str [99, 32]) = Inr [66, 48, 85, 61]" by code_simp
  have c: "compress [66, 48, 85, 61] = [66, 48, 85, 61]" by code_simp
  have u: "decompress 536870888 [66, 48, 85, 61] = Inr [85, 61]"
    by (simp add: Let_def is_digit_def is_line_terminator_def parseInt_def digit_val_def)
  have a: "decrypt (Str [85, 61]) = Null" by code_simp
  have x: "encrypt (Str [8364]) = Inl InvalidCharacterError" by code_simp
  have p: "fst (put [107] (Str [99, 32]) ?ec 0 empty_store) = Inr True"
    by (simp add: put_def Let_def e del: encrypt.simps)
  have m: "map_of (cache (snd (put [107] (Str [99, 32]) ?ec 0 empty_store))) [107] = Some ?e"
    using put_cache_encrypted [of "[107]" "Str [99, 32]" ?ec "[66, 48, 85, 61]" 0 empty_store] e c
    by simp
  have g: "fst (get 536870888 [107] 1 (snd (put [107] (Str [99, 32]) ?ec 0 empty_store))) =
             Inr Null"
    using get_cached [OF m, of 536870888 1] u a by (simp add: processValue_def)
  have b: "fst (put [107] (Str [8364])
             \<lparr>opt_ttl = None, opt_encrypted = True, opt_compress = False\<rparr> 0 empty_store) =
           Inl InvalidCharacterError"
    by (simp add: put_def Let_def x del: encrypt.simps)
  from d p g b show ?thesis by simp
qed

text \<open>
  C1, amended: for a non-empty key and no \<open>ttl\<close>, \<open>put\<close> of a text followed by
  \<open>get\<close> returns the text for every combination of \<open>encrypted\<close> and \<open>compress\<close>,
  provided that with \<open>encrypted\<close> no code unit of the text is above 255 and that with
  \<open>compress\<close> the text handed to the compression (the text, or its Base64 encryption)
  has no digit after a code unit other than a line terminator and, as every string of the
  engine, is not longer than the engine allows. With no option at all, every value but
  \<open>undefined\<close> comes back.
\<close>

theorem codec_round_trip:
  assumes "key \<noteq> []" and "opt_ttl opts = None"
  shows "(codec_safe maxlen opts text \<longrightarrow>
            fst (put key (Str text) opts t0 s) = Inr True \<and>
            fst (get maxlen key t1 (snd (put key (Str text) opts t0 s))) = Inr (Str text)) \<and>
         (v \<noteq> Undefined \<longrightarrow> fst (get maxlen key t1 (snd (put key v no_options t0 s))) = Inr v)"
  using round_trip_text [OF assms] round_trip_plain [OF assms(1)] by blast

theorem codec_round_trip_witness:
  "fst (get 536870888 [107] 1 (snd (put [107] (Str [97, 97, 97, 97, 98])
          \<lparr>opt_ttl = None, opt_encrypted = False, opt_compress = True\<rparr> 0 empty_store))) =
     Inr (Str [97, 97, 97, 97, 98]) \<and>
   fst (get 536870888 [107] 1 (snd (put [107] (Str [97])
          \<lparr>opt_ttl = None, opt_encrypted = True, opt_compress = True\<rparr> 0 empty_store))) =
     Inr (Str [97]) \<and>
   fst (get 536870888 [107] 1 (snd (put [107] (Num 5) no_options 0 empty_store))) = Inr (Num 5)"
proof -
  let ?c = "\<lparr>opt_ttl = None, opt_encrypted = False, opt_compress = True\<rparr>"
  let ?ec = "\<lparr>opt_ttl = None, opt_encrypted = True, opt_compress = True\<rparr>"
  have k: "[107 :: jschar] \<noteq> []" by simp
  have t1: "opt_ttl ?c = None" and t2: "opt_ttl ?ec = None" by simp_all
  have e: "encrypt (Str [97]) = Inr [66, 81, 61, 61]" by code_simp
  have s1: "codec_safe 536870888 ?c [97, 97, 97, 97, 98]"
    by (simp add: codec_safe_def payload_def is_digit_def)
  have s2: "codec_safe 536870888 ?ec [97]"
    by (simp add: codec_safe_def payload_def e is_digit_def del: encrypt.simps)
  have d: "Num 5 \<noteq> Undefined" by simp
  show ?thesis
    using codec_round_trip [OF k t1, of 536870888 "[97, 97, 97, 97, 98]" 0 empty_store 1 "Num 5"]
          codec_round_trip [OF k t2, of 536870888 "[97]" 0 empty_store 1 "Num 5"]
          s1 s2 d
    by blast
qed

section \<open>Expiry\<close>

lemma put_ttl_state:
  assumes "key \<noteq> []" "v \<noteq> Undefined" "0 < t"
  shows "map_of (cache (snd (put key v (ttl_options t) t0 s))) key = Some (ttl_entry v t0 t)"
    and "map_of (store (snd (put key v (ttl_options t) t0 s))) key = Some (ttl_entry v t0 t)"
    and "timers (snd (put key v (ttl_options t) t0 s)) =
           timers s @ [(t0 + setTimeout_delay (t * 1000), key)]"
  using assms
  by (cases v; simp add: put_def ttl_options_def ttl_entry_def Let_def persist_def recordStats_def
        cache_updateCache map_of_map_set updateCache_def split: stat_op.splits)+

lemma get_hit_value:
  "map_of (cache s) key = Some e \<Longrightarrow> \<not> expired e t1 \<Longrightarrow>
     fst (get maxlen key t1 s) = processValue maxlen (e_value e) e"
  by (simp add: get_def Let_def)

lemma delete_removes:
  "\<not> map_has key (store (snd (delete key now s))) \<and> \<not> map_has key (cache (snd (delete key now s)))"
  by (simp add: delete_def Let_def persist_def recordStats_def map_has_map_of map_of_map_delete
      split: stat_op.splits)

lemma delete_other:
  "k \<noteq> key \<Longrightarrow>
     map_of (store (snd (delete k now s))) key = map_of (store s) key \<and>
     map_of (cache (snd (delete k now s))) key = map_of (cache s) key"
  by (simp add: delete_def Let_def persist_def recordStats_def map_of_map_delete
      split: stat_op.splits)

lemma delete_absent:
  "map_of (store s) key = None \<Longrightarrow> map_of (store (snd (delete k now s))) key = None"
  "map_of (cache s) key = None \<Longrightarrow> map_of (cache (snd (delete k now s))) key = None"
  by (simp_all add: delete_def Let_def persist_def recordStats_def map_of_map_delete
      split: stat_op.splits)

lemma get_expired:
  "map_of (cache s) key = Some e \<Longrightarrow> expired e t1 \<Longrightarrow>
     fst (get maxlen key t1 s) = Inr Null \<and>
     \<not> map_has key (store (snd (get maxlen key t1 s))) \<and> \<not> map_has key (cache (snd (get maxlen key t1 s)))"
  by (simp add: get_def Let_def delete_removes)

lemma get_absent:
  "map_of (cache s) key = None \<Longrightarrow> map_of (store s) key = None \<Longrightarrow> fst (get maxlen key t1 s) = Inr Null"
  by (simp add: get_def Let_def)

lemma fold_delete_others:
  "\<forall>p \<in> set ts. snd p \<noteq> key \<Longrightarrow>
     map_of (store (fold (\<lambda>p st. snd (delete (snd p) now st)) ts s)) key = map_of (store s) key \<and>
     map_of (cache (fold (\<lambda>p st. snd (delete (snd p) now st)) ts s)) key = map_of (cache s) key"
  by (induction ts arbitrary: s) (auto simp: delete_other)

lemma fold_delete_absent:
  "map_of (store s) key = None \<and> map_of (cache s) key = None \<Longrightarrow>
     map_of (store (fold (\<lambda>p st. snd (delete (snd p) now st)) ts s)) key = None \<and>
     map_of (cache (fold (\<lambda>p st. snd (delete (snd p) now st)) ts s)) key = None"
  by (induction ts arbitrary: s) (auto simp: delete_absent)

lemma fold_delete_member:
  "(d, key) \<in> set ts \<Longrightarrow>
     map_of (store (fold (\<lambda>p st. snd (delete (snd p) now st)) ts s)) key = None \<and>
     map_of (cache (fold (\<lambda>p st. snd (delete (snd p) now st)) ts s)) key = None"
proof (induction ts arbitrary: s)
  case Nil
  then show ?case by simp
next
  case (Cons p ts)
  show ?case
  proof (cases "p = (d, key)")
    case True
    have "map_of (store (snd (delete key now s))) key = None \<and>
          map_of (cache (snd (delete key now s))) key = None"
      using delete_removes [of key now s] by (simp add: map_has_map_of)
    from fold_delete_absent [OF this] True show ?thesis by simp
  next
    case False
    with Cons show ?thesis by simp
  qed
qed

lemma store_cache_timers_upd [simp]:
  "store (s\<lparr>timers := ts\<rparr>) = store s" "cache (s\<lparr>timers := ts\<rparr>) = cache s"
  by simp_all

lemma setTimeout_delay_le: "0 \<le> d \<Longrightarrow> setTimeout_delay d \<le> d"
  by (auto simp: setTimeout_delay_def Let_def max_def intro: order_trans [OF _ zmod_le_nonneg_dividend])

lemma setTimeout_delay_id: "0 \<le> d \<Longrightarrow> d < 2 ^ 31 \<Longrightarrow> setTimeout_delay d = d"
  by (simp add: setTimeout_delay_def Let_def)

lemma run_timers_keeps:
  assumes "\<forall>p \<in> set (timers s). snd p = key \<longrightarrow> now < fst p"
  shows "map_of (store (run_timers now s)) key = map_of (store s) key \<and>
         map_of (cache (run_timers now s)) key = map_of (cache s) key"
proof -
  have "\<forall>p \<in> set (sort_key fst (filter (\<lambda>t. fst t \<le> now) (timers s))). snd p \<noteq> key"
    using assms by auto
  from fold_delete_others [OF this] show ?thesis
    by (simp add: run_timers_def Let_def)
qed

lemma run_timers_fires:
  assumes "(d, key) \<in> set (timers s)" "d \<le> now"
  shows "map_of (store (run_timers now s)) key = None \<and>
         map_of (cache (run_timers now s)) key = None"
proof -
  have "(d, key) \<in> set (sort_key fst (filter (\<lambda>t. fst t \<le> now) (timers s)))"
    using assms by simp
  from fold_delete_member [OF this] show ?thesis
    by (simp add: run_timers_def Let_def)
qed

text \<open>
  C5, as stated, fails. A key put with a \<open>ttl\<close> of 1 second and put again, half a
  second later, with a \<open>ttl\<close> of 100 seconds is deleted by the timer of the first put,
  which nothing cancels, and \<open>get\<close> returns \<open>null\<close> long before the expiry of the
  second put. And a key put with a \<open>ttl\<close> of 2147484 seconds, whose delay in
  milliseconds does not fit a signed 32-bit integer, is deleted by its own timer at once.
\<close>

theorem ttl_early_deletion_counterexample:
  "fst (get 536870888 [107] 2000
         (run_timers 2000
            (snd (put [107] (Str [118]) (ttl_options 100) 500
               (snd (put [107] (Str [118]) (ttl_options 1) 0 empty_store)))))) = Inr Null \<and>
   (2000 :: int) < 500 + 100 * 1000 \<and>
   fst (get 536870888 [107] 1
         (run_timers 1 (snd (put [107] (Str [118]) (ttl_options 2147484) 0 empty_store)))) =
     Inr Null \<and>
   (1 :: int) < 0 + 2147484 * 1000"
  by (simp add: put_def run_timers_def get_def delete_def ttl_options_def Let_def persist_def
      recordStats_def updateCache_def empty_store_def setTimeout_delay_def map_delete_def)

text \<open>
  C5, amended: for a key put with the options \<open>{ ttl: t }\<close> and no other, \<open>t > 0\<close>, at
  a time \<open>t0 \<ge> 0\<close>, with expiry \<open>t0 + 1000 t\<close>. Without any timer running, \<open>get\<close>
  returns the value up to the expiry and \<open>null\<close> after it, and then the key is gone from
  store and cache. With the due timers run first, from the expiry on the key is gone from
  store and cache and \<open>get\<close> returns \<open>null\<close>; before the expiry \<open>get\<close> returns the
  value, provided that the delay \<open>1000 t\<close> fits a signed 32-bit integer and that no timer
  of an earlier put of that key is due.
\<close>

theorem ttl_expiry:
  assumes "key \<noteq> []" and "v \<noteq> Undefined" and "0 < t" and "0 \<le> t0"
  shows
    "(t1 \<le> t0 + t * 1000 \<longrightarrow>
        fst (get maxlen key t1 (snd (put key v (ttl_options t) t0 s))) = Inr v) \<and>
     (t0 + t * 1000 < t1 \<longrightarrow>
        fst (get maxlen key t1 (snd (put key v (ttl_options t) t0 s))) = Inr Null \<and>
        \<not> map_has key (store (snd (get maxlen key t1 (snd (put key v (ttl_options t) t0 s))))) \<and>
        \<not> map_has key (cache (snd (get maxlen key t1 (snd (put key v (ttl_options t) t0 s)))))) \<and>
     (t0 + t * 1000 \<le> t1 \<longrightarrow>
        \<not> map_has key (store (run_timers t1 (snd (put key v (ttl_options t) t0 s)))) \<and>
        \<not> map_has key (cache (run_timers t1 (snd (put key v (ttl_options t) t0 s)))) \<and>
        fst (get maxlen key t1 (run_timers t1 (snd (put key v (ttl_options t) t0 s)))) = Inr Null) \<and>
     (t1 < t0 + t * 1000 \<and> t * 1000 < 2 ^ 31 \<and>
      (\<forall>p \<in> set (timers s). snd p = key \<longrightarrow> t1 < fst p) \<longrightarrow>
        fst (get maxlen key t1 (run_timers t1 (snd (put key v (ttl_options t) t0 s)))) = Inr v)"
proof -
  let ?s1 = "snd (put key v (ttl_options t) t0 s)"
  let ?e = "ttl_entry v t0 t"
  note st = put_ttl_state [OF assms(1-3), of t0 s]
  have pv: "processValue maxlen (e_value ?e) ?e = Inr v"
    by (simp add: processValue_def ttl_entry_def)
  have ex: "expired ?e t1 \<longleftrightarrow> t0 + t * 1000 < t1"
    using assms(3,4) by (auto simp: expired_def ttl_entry_def)
  have a: "fst (get maxlen key t1 ?s1) = Inr v" if "t1 \<le> t0 + t * 1000"
    using get_hit_value [OF st(1), of t1] that ex pv by simp
  have b: "fst (get maxlen key t1 ?s1) = Inr Null \<and>
        \<not> map_has key (store (snd (get maxlen key t1 ?s1))) \<and>
        \<not> map_has key (cache (snd (get maxlen key t1 ?s1)))" if "t0 + t * 1000 < t1"
    using get_expired [OF st(1), of t1] that ex by simp
  have c: "\<not> map_has key (store (run_timers t1 ?s1)) \<and>
        \<not> map_has key (cache (run_timers t1 ?s1)) \<and>
        fst (get maxlen key t1 (run_timers t1 ?s1)) = Inr Null" if "t0 + t * 1000 \<le> t1"
  proof -
    have "setTimeout_delay (t * 1000) \<le> t * 1000"
      using assms(3) by (intro setTimeout_delay_le) simp
    then have due: "t0 + setTimeout_delay (t * 1000) \<le> t1" using that by simp
    have "(t0 + setTimeout_delay (t * 1000), key) \<in> set (timers ?s1)"
      by (simp add: st(3))
    from run_timers_fires [OF this due] show ?thesis
      by (simp add: map_has_map_of get_absent)
  qed
  have d: "fst (get maxlen key t1 (run_timers t1 ?s1)) = Inr v"
    if "t1 < t0 + t * 1000" "t * 1000 < 2 ^ 31"
       "\<forall>p \<in> set (timers s). snd p = key \<longrightarrow> t1 < fst p"
  proof -
    have "setTimeout_delay (t * 1000) = t * 1000"
      using assms(3) that(2) by (intro setTimeout_delay_id) simp_all
    then have "\<forall>p \<in> set (timers ?s1). snd p = key \<longrightarrow> t1 < fst p"
      using that(1,3) by (auto simp: st(3))
    from run_timers_keeps [OF this] have "map_of (cache (run_timers t1 ?s1)) key = Some ?e"
      by (simp add: st(1))
    from get_hit_value [OF this, of t1] that(1) ex pv show ?thesis by simp
  qed
  from a b c d show ?thesis by blast
qed

theorem ttl_expiry_witness:
  "fst (get 536870888 [107] 60000 (snd (put [107] (Str [118]) (ttl_options 60) 0 empty_store))) =
     Inr (Str [118]) \<and>
   fst (get 536870888 [107] 60001 (snd (put [107] (Str [118]) (ttl_options 60) 0 empty_store))) = Inr Null \<and>
   \<not> map_has [107] (store (run_timers 60000 (snd (put [107] (Str [118]) (ttl_options 60) 0 empty_store)))) \<and>
   fst (get 536870888 [107] 59999
         (run_timers 59999 (snd (put [107] (Str [118]) (ttl_options 60) 0 empty_store)))) =
     Inr (Str [118])"
  using ttl_expiry [where key = "[107]" and v = "Str [118]" and t = 60 and ?t0.0 = 0
                        and ?t1.0 = 60000 and s = empty_store and maxlen = 536870888]
        ttl_expiry [where key = "[107]" and v = "Str [118]" and t = 60 and ?t0.0 = 0
                        and ?t1.0 = 60001 and s = empty_store and maxlen = 536870888]
        ttl_expiry [where key = "[107]" and v = "Str [118]" and t = 60 and ?t0.0 = 0
                        and ?t1.0 = 59999 and s = empty_store and maxlen = 536870888]
  by (simp add: empty_store_def)

section \<open>Batch execution\<close>


lemma batch_loop_acc:
  "batch_loop maxlen ops acc s =
     (case batch_loop maxlen ops [] s of ((e, rs), s') \<Rightarrow> ((e, acc @ rs), s'))"
proof (induction ops arbitrary: acc s)
  case Nil
  then show ?case by simp
next
  case (Cons x ops)
  obtain op now where x: "x = (op, now)" by (cases x) auto
  show ?case
  proof (cases "batch_step maxlen op now s")
    case (Pair res s')
    show ?thesis
    proof (cases res)
      case (Inl err)
      with Pair x show ?thesis by simp
    next
      case (Inr r)
      with Pair x Cons.IH [of "acc @ [(op, r)]" s'] Cons.IH [of "[(op, r)]" s']
      show ?thesis by (simp split: prod.splits)
    qed
  qed
qed

lemma batch_Nil:
  "batch maxlen [] s = (\<lparr>br_success = True, br_error = None, br_results = [], br_opsPerformed = Some 0\<rparr>, s)"
  by (simp add: batch_def)

lemma batch_Cons_throw:
  "batch_step maxlen op now s = (Inl err, s') \<Longrightarrow>
     batch maxlen ((op, now) # rest) s =
       (\<lparr>br_success = False, br_error = Some err, br_results = [], br_opsPerformed = None\<rparr>, s')"
  by (simp add: batch_def)

lemma batch_Cons_ok:
  assumes "batch_step maxlen op now s = (Inr r, s')"
  shows "snd (batch maxlen ((op, now) # rest) s) = snd (batch maxlen rest s')"
    and "br_results (fst (batch maxlen ((op, now) # rest) s)) = (op, r) # br_results (fst (batch maxlen rest s'))"
    and "br_success (fst (batch maxlen ((op, now) # rest) s)) = br_success (fst (batch maxlen rest s'))"
    and "br_error (fst (batch maxlen ((op, now) # rest) s)) = br_error (fst (batch maxlen rest s'))"
  using assms batch_loop_acc [of maxlen rest "[(op, r)]" s']
  by (auto simp: batch_def split: prod.splits option.splits)

lemma batch_results_length:
  "length (br_results (fst (batch maxlen ops s))) \<le> length ops \<and>
   (br_success (fst (batch maxlen ops s)) \<longleftrightarrow> length (br_results (fst (batch maxlen ops s))) = length ops) \<and>
   (br_success (fst (batch maxlen ops s)) \<longleftrightarrow> br_error (fst (batch maxlen ops s)) = None) \<and>
   map fst (br_results (fst (batch maxlen ops s))) =
     map fst (take (length (br_results (fst (batch maxlen ops s)))) ops)"
proof (induction ops arbitrary: s)
  case Nil
  then show ?case by (simp add: batch_Nil)
next
  case (Cons x ops)
  obtain op now where x: "x = (op, now)" by (cases x) auto
  show ?case
  proof (cases "batch_step maxlen op now s")
    case (Pair res s')
    show ?thesis
    proof (cases res)
      case (Inl err)
      with Pair x show ?thesis by (simp add: batch_Cons_throw)
    next
      case (Inr r)
      with Pair have st: "batch_step maxlen op now s = (Inr r, s')" by simp
      show ?thesis using Cons.IH [of s'] by (auto simp: x batch_Cons_ok [OF st])
    qed
  qed
qed

lemma batch_prefix_steps:
  "i < length (br_results (fst (batch maxlen ops s))) \<Longrightarrow>
     batch_step maxlen (fst (ops ! i)) (snd (ops ! i)) (snd (batch maxlen (take i ops) s)) =
       (Inr (snd (br_results (fst (batch maxlen ops s)) ! i)), snd (batch maxlen (take (Suc i) ops) s))"
proof (induction ops arbitrary: s i)
  case Nil
  then show ?case by (simp add: batch_Nil)
next
  case (Cons x ops)
  obtain op now where x: "x = (op, now)" by (cases x) auto
  show ?case
  proof (cases "batch_step maxlen op now s")
    case (Pair res s')
    show ?thesis
    proof (cases res)
      case (Inl err)
      with Pair x Cons.prems show ?thesis by (simp add: batch_Cons_throw)
    next
      case (Inr r)
      with Pair have st: "batch_step maxlen op now s = (Inr r, s')" by simp
      show ?thesis
      proof (cases i)
        case 0
        then show ?thesis using st by (simp add: x batch_Nil batch_Cons_ok [OF st])
      next
        case (Suc j)
        with Cons.prems have "j < length (br_results (fst (batch maxlen ops s')))"
          by (simp add: x batch_Cons_ok [OF st])
        from Cons.IH [OF this] show ?thesis
          by (simp add: x Suc batch_Cons_ok [OF st])
      qed
    qed
  qed
qed

lemma batch_throw_step:
  "\<not> br_success (fst (batch maxlen ops s)) \<Longrightarrow>
     \<exists>err. br_error (fst (batch maxlen ops s)) = Some err \<and>
       batch_step maxlen (fst (ops ! length (br_results (fst (batch maxlen ops s)))))
                  (snd (ops ! length (br_results (fst (batch maxlen ops s)))))
                  (snd (batch maxlen (take (length (br_results (fst (batch maxlen ops s)))) ops) s)) =
         (Inl err, snd (batch maxlen ops s))"
proof (induction ops arbitrary: s)
  case Nil
  then show ?case by (simp add: batch_Nil)
next
  case (Cons x ops)
  obtain op now where x: "x = (op, now)" by (cases x) auto
  show ?case
  proof (cases "batch_step maxlen op now s")
    case (Pair res s')
    show ?thesis
    proof (cases res)
      case (Inl err)
      with Pair x show ?thesis by (simp add: batch_Cons_throw batch_Nil)
    next
      case (Inr r)
      with Pair have st: "batch_step maxlen op now s = (Inr r, s')" by simp
      from Cons.prems have "\<not> br_success (fst (batch maxlen ops s'))"
        by (simp add: x batch_Cons_ok [OF st])
      from Cons.IH [OF this] show ?thesis
        by (simp add: x batch_Cons_ok [OF st])
    qed
  qed
qed

lemma batch_prefix_results:
  "br_results (fst (batch maxlen (take (length (br_results (fst (batch maxlen ops s)))) ops) s)) =
     br_results (fst (batch maxlen ops s)) \<and>
   br_success (fst (batch maxlen (take (length (br_results (fst (batch maxlen ops s)))) ops) s))"
proof (induction ops arbitrary: s)
  case Nil
  then show ?case by (simp add: batch_Nil)
next
  case (Cons x ops)
  obtain op now where x: "x = (op, now)" by (cases x) auto
  show ?case
  proof (cases "batch_step maxlen op now s")
    case (Pair res s')
    show ?thesis
    proof (cases res)
      case (Inl err)
      with Pair x show ?thesis by (simp add: batch_Cons_throw batch_Nil)
    next
      case (Inr r)
      with Pair have st: "batch_step maxlen op now s = (Inr r, s')" by simp
      from Cons.IH [of s'] show ?thesis
        by (simp add: x batch_Cons_ok [OF st])
    qed
  qed
qed

lemma put_returns_True: "put key v opts now s = (Inr r, s') \<Longrightarrow> r = True"
  by (auto simp: put_def Let_def split: sum.splits prod.splits if_splits)

lemma put_throws_unchanged: "put key v opts now s = (Inl err, s') \<Longrightarrow> s' = s"
  by (auto simp: put_def Let_def split: sum.splits prod.splits if_splits)

lemma delete_result: "fst (delete key now s) = map_has key (store s)"
  by (simp add: delete_def Let_def)

lemma store_updateCache [simp]: "store (updateCache key e s) = store s"
  by (simp add: updateCache_def)

lemma get_throws_store: "get maxlen key now s = (Inl err, s') \<Longrightarrow> store s' = store s"
  by (auto simp: get_def Let_def recordStats_def split: option.splits if_splits stat_op.splits)

lemma batch_step_returns:
  assumes "batch_step maxlen op now s = (Inr r, s')"
  shows "case b_op op of
           OpPUT \<Rightarrow>
             put (b_key op) (b_value op) (batch_options op) now s = (Inr True, s') \<and>
             r = PutResult True
         | OpGET \<Rightarrow> (\<exists>v. get maxlen (b_key op) now s = (Inr v, s') \<and> r = GetResult v)
         | OpDELETE \<Rightarrow>
             delete (b_key op) now s = (map_has (b_key op) (store s), s') \<and>
             r = DeleteResult (map_has (b_key op) (store s))
         | OpEXISTS \<Rightarrow> (\<exists>b. exists (b_key op) now s = (b, s') \<and> r = ExistsResult b)
         | OpOther \<Rightarrow> s' = s \<and> r = UnknownOperation"
proof (cases "b_op op")
  case OpPUT
  with assms obtain b where "put (b_key op) (b_value op) (batch_options op) now s = (Inr b, s')"
    "r = PutResult b"
    by (auto simp: batch_step_def split: prod.splits sum.splits)
  with put_returns_True [OF this(1)] OpPUT show ?thesis by simp
next
  case OpGET
  with assms show ?thesis by (auto simp: batch_step_def split: prod.splits sum.splits)
next
  case OpDELETE
  with assms delete_result [of "b_key op" now s] show ?thesis
    by (auto simp: batch_step_def split: prod.splits)
next
  case OpEXISTS
  with assms show ?thesis by (auto simp: batch_step_def split: prod.splits)
next
  case OpOther
  with assms show ?thesis by (auto simp: batch_step_def)
qed

lemma batch_step_throws:
  assumes "batch_step maxlen op now s = (Inl err, s')"
  shows "store s' = store s \<and>
         (b_op op = OpPUT \<and>
            put (b_key op) (b_value op) (batch_options op) now s = (Inl err, s) \<and> s' = s \<or>
          b_op op = OpGET \<and> get maxlen (b_key op) now s = (Inl err, s'))"
proof (cases "b_op op")
  case OpPUT
  with assms have p: "put (b_key op) (b_value op) (batch_options op) now s = (Inl err, s')"
    by (auto simp: batch_step_def split: prod.splits sum.splits)
  from put_throws_unchanged [OF p] p OpPUT show ?thesis by simp
next
  case OpGET
  with assms have g: "get maxlen (b_key op) now s = (Inl err, s')"
    by (auto simp: batch_step_def split: prod.splits sum.splits)
  from get_throws_store [OF g] g OpGET show ?thesis by simp
next
  case OpDELETE
  with assms show ?thesis by (auto simp: batch_step_def split: prod.splits)
next
  case OpEXISTS
  with assms show ?thesis by (auto simp: batch_step_def split: prod.splits)
next
  case OpOther
  with assms show ?thesis by (auto simp: batch_step_def)
qed

text \<open>
  C6: \<open>batch\<close> applies the operations to the store in the given order, starting from the
  state it is called in, and stops at the first one that throws. With \<open>n\<close> the number of
  results: the results are for the first \<open>n\<close> operations, in order. Operation \<open>i < n\<close>
  is the call of \<open>put\<close>, \<open>get\<close>, \<open>delete\<close> or \<open>exists\<close> that its tag names, with
  its key, value and \<open>ttl\<close>, on the state left by the operations before it; the call
  returns, its result is result \<open>i\<close> and the state it leaves is the state for the next
  operation (an unknown tag changes nothing). \<open>success\<close> holds exactly when \<open>n\<close> is
  the number of operations. When it does not hold, operation \<open>n\<close> is a \<open>put\<close> or a
  \<open>get\<close> that throws on the state left by the first \<open>n\<close> operations, its error is
  reported, the results are those of the batch of the first \<open>n\<close> operations, and the
  store is the store left by the first \<open>n\<close> operations: nothing is rolled back.
\<close>

theorem batch_ordered_partial_apply:
  "batch_state maxlen ops s 0 = s \<and>
   length (batch_results maxlen ops s) \<le> length ops \<and>
   map fst (batch_results maxlen ops s) =
     map fst (take (length (batch_results maxlen ops s)) ops) \<and>
   (\<forall>i < length (batch_results maxlen ops s).
      (case b_op (fst (ops ! i)) of
         OpPUT \<Rightarrow>
           put (b_key (fst (ops ! i))) (b_value (fst (ops ! i))) (batch_options (fst (ops ! i)))
               (snd (ops ! i)) (batch_state maxlen ops s i) =
             (Inr True, batch_state maxlen ops s (Suc i)) \<and>
           snd (batch_results maxlen ops s ! i) = PutResult True
       | OpGET \<Rightarrow>
           (\<exists>v. get maxlen (b_key (fst (ops ! i))) (snd (ops ! i)) (batch_state maxlen ops s i) =
                  (Inr v, batch_state maxlen ops s (Suc i)) \<and>
                snd (batch_results maxlen ops s ! i) = GetResult v)
       | OpDELETE \<Rightarrow>
           delete (b_key (fst (ops ! i))) (snd (ops ! i)) (batch_state maxlen ops s i) =
             (map_has (b_key (fst (ops ! i))) (store (batch_state maxlen ops s i)),
              batch_state maxlen ops s (Suc i)) \<and>
           snd (batch_results maxlen ops s ! i) =
             DeleteResult (map_has (b_key (fst (ops ! i))) (store (batch_state maxlen ops s i)))
       | OpEXISTS \<Rightarrow>
           (\<exists>b. exists (b_key (fst (ops ! i))) (snd (ops ! i)) (batch_state maxlen ops s i) =
                  (b, batch_state maxlen ops s (Suc i)) \<and>
                snd (batch_results maxlen ops s ! i) = ExistsResult b)
       | OpOther \<Rightarrow>
           batch_state maxlen ops s (Suc i) = batch_state maxlen ops s i \<and>
           snd (batch_results maxlen ops s ! i) = UnknownOperation)) \<and>
   (br_success (fst (batch maxlen ops s)) \<longleftrightarrow>
      length (batch_results maxlen ops s) = length ops) \<and>
   (\<not> br_success (fst (batch maxlen ops s)) \<longrightarrow>
      (\<exists>err. br_error (fst (batch maxlen ops s)) = Some err \<and>
         (b_op (fst (ops ! length (batch_results maxlen ops s))) = OpPUT \<and>
            put (b_key (fst (ops ! length (batch_results maxlen ops s))))
                (b_value (fst (ops ! length (batch_results maxlen ops s))))
                (batch_options (fst (ops ! length (batch_results maxlen ops s))))
                (snd (ops ! length (batch_results maxlen ops s)))
                (batch_state maxlen ops s (length (batch_results maxlen ops s))) =
              (Inl err, batch_state maxlen ops s (length (batch_results maxlen ops s))) \<and>
            snd (batch maxlen ops s) =
              batch_state maxlen ops s (length (batch_results maxlen ops s)) \<or>
          b_op (fst (ops ! length (batch_results maxlen ops s))) = OpGET \<and>
            get maxlen (b_key (fst (ops ! length (batch_results maxlen ops s))))
                (snd (ops ! length (batch_results maxlen ops s)))
                (batch_state maxlen ops s (length (batch_results maxlen ops s))) =
              (Inl err, snd (batch maxlen ops s)))) \<and>
      store (snd (batch maxlen ops s)) =
        store (batch_state maxlen ops s (length (batch_results maxlen ops s))) \<and>
      batch_results maxlen (take (length (batch_results maxlen ops s)) ops) s =
        batch_results maxlen ops s)"
proof -
  let ?R = "batch_results maxlen ops s"
  let ?n = "length ?R"
  note len = batch_results_length [of maxlen ops s]
  have start: "batch_state maxlen ops s 0 = s" by (simp add: batch_Nil)
  have steps: "case b_op (fst (ops ! i)) of
         OpPUT \<Rightarrow>
           put (b_key (fst (ops ! i))) (b_value (fst (ops ! i))) (batch_options (fst (ops ! i)))
               (snd (ops ! i)) (batch_state maxlen ops s i) =
             (Inr True, batch_state maxlen ops s (Suc i)) \<and>
           snd (?R ! i) = PutResult True
       | OpGET \<Rightarrow>
           (\<exists>v. get maxlen (b_key (fst (ops ! i))) (snd (ops ! i)) (batch_state maxlen ops s i) =
                  (Inr v, batch_state maxlen ops s (Suc i)) \<and>
                snd (?R ! i) = GetResult v)
       | OpDELETE \<Rightarrow>
           delete (b_key (fst (ops ! i))) (snd (ops ! i)) (batch_state maxlen ops s i) =
             (map_has (b_key (fst (ops ! i))) (store (batch_state maxlen ops s i)),
              batch_state maxlen ops s (Suc i)) \<and>
           snd (?R ! i) =
             DeleteResult (map_has (b_key (fst (ops ! i))) (store (batch_state maxlen ops s i)))
       | OpEXISTS \<Rightarrow>
           (\<exists>b. exists (b_key (fst (ops ! i))) (snd (ops ! i)) (batch_state maxlen ops s i) =
                  (b, batch_state maxlen ops s (Suc i)) \<and>
                snd (?R ! i) = ExistsResult b)
       | OpOther \<Rightarrow>
           batch_state maxlen ops s (Suc i) = batch_state maxlen ops s i \<and>
           snd (?R ! i) = UnknownOperation" if "i < ?n" for i
    by (rule batch_step_returns [OF batch_prefix_steps [OF that]])
  have throw: "(\<exists>err. br_error (fst (batch maxlen ops s)) = Some err \<and>
         (b_op (fst (ops ! ?n)) = OpPUT \<and>
            put (b_key (fst (ops ! ?n))) (b_value (fst (ops ! ?n)))
                (batch_options (fst (ops ! ?n))) (snd (ops ! ?n)) (batch_state maxlen ops s ?n) =
              (Inl err, batch_state maxlen ops s ?n) \<and>
            snd (batch maxlen ops s) = batch_state maxlen ops s ?n \<or>
          b_op (fst (ops ! ?n)) = OpGET \<and>
            get maxlen (b_key (fst (ops ! ?n))) (snd (ops ! ?n)) (batch_state maxlen ops s ?n) =
              (Inl err, snd (batch maxlen ops s)))) \<and>
      store (snd (batch maxlen ops s)) = store (batch_state maxlen ops s ?n)"
    if "\<not> br_success (fst (batch maxlen ops s))"
  proof -
    from batch_throw_step [OF that] obtain err where
      e: "br_error (fst (batch maxlen ops s)) = Some err"
         "batch_step maxlen (fst (ops ! ?n)) (snd (ops ! ?n)) (batch_state maxlen ops s ?n) =
            (Inl err, snd (batch maxlen ops s))"
      by blast
    from batch_step_throws [OF e(2)] e(1) show ?thesis by auto
  qed
  from start len steps throw batch_prefix_results [of maxlen ops s] show ?thesis by blast
qed

theorem batch_ordered_partial_apply_witness:
  "\<not> br_success (fst (batch 536870888
        [(\<lparr>b_op = OpPUT, b_key = [97], b_value = Str [49], b_ttl = None\<rparr>, 0),
         (\<lparr>b_op = OpPUT, b_key = [98], b_value = Undefined, b_ttl = None\<rparr>, 1),
         (\<lparr>b_op = OpGET, b_key = [97], b_value = Undefined, b_ttl = None\<rparr>, 2)] empty_store)) \<and>
   br_error (fst (batch 536870888
        [(\<lparr>b_op = OpPUT, b_key = [97], b_value = Str [49], b_ttl = None\<rparr>, 0),
         (\<lparr>b_op = OpPUT, b_key = [98], b_value = Undefined, b_ttl = None\<rparr>, 1),
         (\<lparr>b_op = OpGET, b_key = [97], b_value = Undefined, b_ttl = None\<rparr>, 2)] empty_store)) =
     Some Invalid_key_or_value \<and>
   batch_results 536870888
        [(\<lparr>b_op = OpPUT, b_key = [97], b_value = Str [49], b_ttl = None\<rparr>, 0),
         (\<lparr>b_op = OpPUT, b_key = [98], b_value = Undefined, b_ttl = None\<rparr>, 1),
         (\<lparr>b_op = OpGET, b_key = [97], b_value = Undefined, b_ttl = None\<rparr>, 2)] empty_store =
     [(\<lparr>b_op = OpPUT, b_key = [97], b_value = Str [49], b_ttl = None\<rparr>, PutResult True)] \<and>
   store (snd (batch 536870888
        [(\<lparr>b_op = OpPUT, b_key = [97], b_value = Str [49], b_ttl = None\<rparr>, 0),
         (\<lparr>b_op = OpPUT, b_key = [98], b_value = Undefined, b_ttl = None\<rparr>, 1),
         (\<lparr>b_op = OpGET, b_key = [97], b_value = Undefined, b_ttl = None\<rparr>, 2)] empty_store)) =
     store (snd (put [97] (Str [49]) \<lparr>opt_ttl = None, opt_encrypted = False, opt_compress = False\<rparr>
                   0 empty_store)) \<and>
   store (snd (put [97] (Str [49]) \<lparr>opt_ttl = None, opt_encrypted = False, opt_compress = False\<rparr>
                   0 empty_store)) =
     [([97], \<lparr>e_value = Str [49], e_timestamp = 0, e_encrypted = False, e_compressed = False,
              e_expiry = None\<rparr>)] \<and>
   br_success (fst (batch 536870888
        [(\<lparr>b_op = OpPUT, b_key = [97], b_value = Str [49], b_ttl = None\<rparr>, 0),
         (\<lparr>b_op = OpPUT, b_key = [98], b_value = Str [50], b_ttl = None\<rparr>, 1),
         (\<lparr>b_op = OpGET, b_key = [97], b_value = Undefined, b_ttl = None\<rparr>, 2)] empty_store)) \<and>
   map snd (batch_results 536870888
        [(\<lparr>b_op = OpPUT, b_key = [97], b_value = Str [49], b_ttl = None\<rparr>, 0),
         (\<lparr>b_op = OpPUT, b_key = [98], b_value = Str [50], b_ttl = None\<rparr>, 1),
         (\<lparr>b_op = OpGET, b_key = [97], b_value = Undefined, b_ttl = None\<rparr>, 2)] empty_store) =
     [PutResult True, PutResult True, GetResult (Str [49])] \<and>
   br_error (fst (batch 536870888
        [(\<lparr>b_op = OpGET, b_key = [107], b_value = Undefined, b_ttl = None\<rparr>, 1)]
        (snd (put [107] (Str [116, 49, 55, 49, 50, 51, 52, 53, 54, 55, 56, 57, 48, 49])
                \<lparr>opt_ttl = None, opt_encrypted = False, opt_compress = True\<rparr> 0
                empty_store)))) = Some RangeError \<and>
   store (snd (batch 536870888
        [(\<lparr>b_op = OpGET, b_key = [107], b_value = Undefined, b_ttl = None\<rparr>, 1)]
        (snd (put [107] (Str [116, 49, 55, 49, 50, 51, 52, 53, 54, 55, 56, 57, 48, 49])
                \<lparr>opt_ttl = None, opt_encrypted = False, opt_compress = True\<rparr> 0
                empty_store)))) =
     store (snd (put [107] (Str [116, 49, 55, 49, 50, 51, 52, 53, 54, 55, 56, 57, 48, 49])
                \<lparr>opt_ttl = None, opt_encrypted = False, opt_compress = True\<rparr> 0
                empty_store))"
proof -
  let ?a = "\<lparr>b_op = OpPUT, b_key = [97], b_value = Str [49], b_ttl = None\<rparr>"
  let ?b = "\<lparr>b_op = OpPUT, b_key = [98], b_value = Undefined, b_ttl = None\<rparr>"
  let ?b' = "\<lparr>b_op = OpPUT, b_key = [98], b_value = Str [50], b_ttl = None\<rparr>"
  let ?c = "\<lparr>b_op = OpGET, b_key = [97], b_value = Undefined, b_ttl = None\<rparr>"
  let ?ops = "[(?a, 0), (?b, 1), (?c, 2)]"
  let ?ops' = "[(?a, 0), (?b', 1), (?c, 2)]"
  have r: "fst (batch 536870888 ?ops empty_store) =
             \<lparr>br_success = False, br_error = Some Invalid_key_or_value,
              br_results = [(?a, PutResult True)], br_opsPerformed = None\<rparr>"
    by (simp add: batch_def batch_step_def put_def Let_def)
  have r': "fst (batch 536870888 ?ops' empty_store) =
             \<lparr>br_success = True, br_error = None,
              br_results = [(?a, PutResult True), (?b', PutResult True),
                            (?c, GetResult (Str [49]))],
              br_opsPerformed = Some 3\<rparr>"
    by (simp add: batch_def batch_step_def put_def get_def Let_def persist_def recordStats_def
        updateCache_def empty_store_def expired_def processValue_def)
  have p: "store (snd (put [97] (Str [49])
             \<lparr>opt_ttl = None, opt_encrypted = False, opt_compress = False\<rparr> 0 empty_store)) =
     [([97], \<lparr>e_value = Str [49], e_timestamp = 0, e_encrypted = False, e_compressed = False,
              e_expiry = None\<rparr>)]"
    by (simp add: put_def Let_def persist_def recordStats_def updateCache_def empty_store_def)
  have t: "take (Suc 0) ?ops = [(?a, 0)]" by simp
  note th = batch_ordered_partial_apply [where maxlen = 536870888 and ops = ?ops
              and s = empty_store]
  from th have a: "store (snd (batch 536870888 ?ops empty_store)) =
                    store (batch_state 536870888 ?ops empty_store 1)"
    using r by (auto simp: batch_Nil)
  from th have b: "put [97] (Str [49])
        \<lparr>opt_ttl = None, opt_encrypted = False, opt_compress = False\<rparr> 0 empty_store =
      (Inr True, batch_state 536870888 ?ops empty_store 1)"
    using r by (auto simp: batch_Nil)
  from a b have "store (snd (batch 536870888 ?ops empty_store)) =
     store (snd (put [97] (Str [49])
        \<lparr>opt_ttl = None, opt_encrypted = False, opt_compress = False\<rparr> 0 empty_store))"
    by (metis snd_conv)
  note first = this
  let ?t = "[116, 49, 55, 49, 50, 51, 52, 53, 54, 55, 56, 57, 48, 49] :: jsstr"
  let ?o = "\<lparr>opt_ttl = None, opt_encrypted = False, opt_compress = True\<rparr>"
  let ?g = "[(\<lparr>b_op = OpGET, b_key = [107], b_value = Undefined, b_ttl = None\<rparr>, 1)]
              :: (batch_op \<times> int) list"
  let ?sx = "snd (put [107] (Str ?t) ?o 0 empty_store)"
  have u: "decompress 536870888 ?t = Inl RangeError"
    by (simp add: Let_def is_digit_def is_line_terminator_def parseInt_def digit_val_def)
  have c: "compress ?t = ?t" by code_simp
  have m: "map_of (cache ?sx) [107] =
     Some \<lparr>e_value = Str ?t, e_timestamp = 0, e_encrypted = False, e_compressed = True,
           e_expiry = None\<rparr>"
    using put_cache_plain [of "[107]" "Str ?t" ?o 0 empty_store] c by simp
  have "fst (get 536870888 [107] 1 ?sx) = Inl RangeError"
    using get_cached [OF m, of 536870888 1] u by (simp add: processValue_def)
  then have rg: "fst (batch 536870888 ?g ?sx) =
     \<lparr>br_success = False, br_error = Some RangeError, br_results = [], br_opsPerformed = None\<rparr>"
    by (auto simp: batch_def batch_step_def split: prod.splits sum.splits)
  have sg: "store (snd (batch 536870888 ?g ?sx)) = store ?sx"
    using batch_ordered_partial_apply [where maxlen = 536870888 and ops = ?g and s = ?sx] rg
    by (auto simp: batch_Nil)
  from first r r' p rg sg show ?thesis by simp
qed

section \<open>Import\<close>


lemma truthy_defined: "truthy v \<Longrightarrow> v \<noteq> Undefined"
  by (cases v) auto

lemma put_plain_ok:
  "key \<noteq> [] \<Longrightarrow> v \<noteq> Undefined \<Longrightarrow> \<not> opt_encrypted opts \<Longrightarrow> fst (put key v opts now s) = Inr True"
  by (simp add: put_def Let_def)

lemma import_loop_all:
  "ElemNull \<notin> set es \<Longrightarrow>
     import_loop es n now s =
       (Inr (n + length (filter importable es)), put_all (map (import_put now) (filter importable es)) s)"
proof (induction es arbitrary: n s)
  case Nil
  then show ?case by simp
next
  case (Cons e es)
  then obtain r where e: "e = ElemObj r" by (cases e) auto
  from Cons.prems have rest: "ElemNull \<notin> set es" by simp
  show ?case
  proof (cases "importable e")
    case False
    with e Cons.IH [OF rest] show ?thesis by (auto split: option.splits)
  next
    case True
    then obtain k where k: "r_key r = Some k" "k \<noteq> []" "truthy (r_value r)"
      using e by (auto split: option.splits)
    let ?o = "\<lparr>opt_ttl = (case r_ttl r of None \<Rightarrow> None | Some t \<Rightarrow> if t = 0 then None else Some t),
               opt_encrypted = False, opt_compress = False\<rparr>"
    have "fst (put k (r_value r) ?o now s) = Inr True"
      using k by (simp add: put_plain_ok truthy_defined)
    then obtain s' where p: "put k (r_value r) ?o now s = (Inr True, s')"
      by (cases "put k (r_value r) ?o now s") auto
    with True e k Cons.IH [OF rest, of "n + 1" s'] show ?thesis by simp
  qed
qed

text \<open>
  C7, as stated, fails twice. A parsed array whose second element is \<open>null\<close> makes the
  call fail after the first record has been put, so a failing call has an effect; and a
  record whose value is \<open>0\<close> has a key and a value and is skipped all the same.
\<close>

theorem import_partial_effect_counterexample:
  "parse_entries
       (\<lambda>d. Inr (Entries [ElemObj \<lparr>r_key = Some [97], r_value = Str [49], r_ttl = None\<rparr>, ElemNull]))
       [] [106, 115, 111, 110] =
     Inr (Entries [ElemObj \<lparr>r_key = Some [97], r_value = Str [49], r_ttl = None\<rparr>, ElemNull]) \<and>
   fst (import_data
       (\<lambda>d. Inr (Entries [ElemObj \<lparr>r_key = Some [97], r_value = Str [49], r_ttl = None\<rparr>, ElemNull]))
       [] [106, 115, 111, 110] 0 empty_store) = ImportFailed TypeError \<and>
   map_has [97] (store (snd (import_data
       (\<lambda>d. Inr (Entries [ElemObj \<lparr>r_key = Some [97], r_value = Str [49], r_ttl = None\<rparr>, ElemNull]))
       [] [106, 115, 111, 110] 0 empty_store))) \<and>
   \<not> map_has [97] (store empty_store) \<and>
   import_data
       (\<lambda>d. Inr (Entries [ElemObj \<lparr>r_key = Some [98], r_value = Num 0, r_ttl = None\<rparr>]))
       [] [106, 115, 111, 110] 0 empty_store = (Imported 0 1, empty_store)"
  by (simp add: parse_entries_def import_data_def put_def Let_def persist_def recordStats_def
       updateCache_def map_has_def empty_store_def)

text \<open>
  C7, amended: when the \<open>switch\<close> on the format throws (a parse error, an unsupported
  format) or \<open>JSON.parse\<close> returns a value that is not an array, the call fails with
  that error and the state is unchanged; when it gives an array without a \<open>null\<close>
  element, the records whose key and value are both truthy are put in order, with their
  \<open>ttl\<close>, the others are skipped, and the call returns the number of records put and
  the number of records parsed.
\<close>

theorem import_parse_then_apply:
  "(\<forall>err. parse_entries JSON_parse data format = Inl err \<longrightarrow>
      import_data JSON_parse data format now s = (ImportFailed err, s)) \<and>
   (parse_entries JSON_parse data format = Inr NotArray \<longrightarrow>
      import_data JSON_parse data format now s = (ImportFailed TypeError, s)) \<and>
   (\<forall>es. parse_entries JSON_parse data format = Inr (Entries es) \<and> ElemNull \<notin> set es \<longrightarrow>
      import_data JSON_parse data format now s =
        (Imported (length (filter importable es)) (length es),
         put_all (map (import_put now) (filter importable es)) s))"
  by (auto simp: import_data_def import_loop_all)

theorem import_parse_then_apply_witness:
  "import_data (\<lambda>d. Inl SyntaxError) [123] [106, 115, 111, 110] 0 empty_store =
     (ImportFailed SyntaxError, empty_store) \<and>
   import_data (\<lambda>d. Inl SyntaxError) [123] [120, 109, 108] 0 empty_store =
     (ImportFailed Unsupported_format, empty_store) \<and>
   import_data (\<lambda>d. Inr NotArray) [123, 125] [106, 115, 111, 110] 0 empty_store =
     (ImportFailed TypeError, empty_store) \<and>
   import_data (\<lambda>d. Inl SyntaxError) [75, 44, 86, 10, 97, 44, 49, 10, 98] [99, 115, 118] 0 empty_store =
     (Imported 1 2, snd (put [97] (Str [49]) no_options 0 empty_store))"
proof -
  have c: "parse_csv [75, 44, 86, 10, 97, 44, 49, 10, 98] =
      [ElemObj \<lparr>r_key = Some [97], r_value = Str [49], r_ttl = None\<rparr>,
       ElemObj \<lparr>r_key = Some [98], r_value = Undefined, r_ttl = None\<rparr>]"
    by (simp add: parse_csv_def key_value_def trim_def strip_quotes_def is_js_whitespace_def)
  show ?thesis
    using import_parse_then_apply [of "\<lambda>d. Inl SyntaxError" "[123]" "[106, 115, 111, 110]" 0 empty_store]
          import_parse_then_apply [of "\<lambda>d. Inl SyntaxError" "[123]" "[120, 109, 108]" 0 empty_store]
          import_parse_then_apply [of "\<lambda>d. Inr NotArray" "[123, 125]" "[106, 115, 111, 110]" 0 empty_store]
          import_parse_then_apply [of "\<lambda>d. Inl SyntaxError" "[75, 44, 86, 10, 97, 44, 49, 10, 98]"
             "[99, 115, 118]" 0 empty_store]
    by (simp add: parse_entries_def c no_options_def)
qed

end
